theory Spec2Isabelle
  imports Complex_Main "HOL-Library.Word" "HOL-Library.AList"
begin

section \<open>Data model\<close>

text \<open>
  The binarized sheet \<open>thresh\<close> is a two-dimensional array of unsigned 8-bit samples:
  a list of rows, each a list of pixels. A Python \<open>dict\<close> keeps insertion order and has
  no duplicate keys; it is an association list, written to with \<open>AList.update\<close> (an
  existing key keeps its place, a new key goes to the end) and read with \<open>map_of\<close>.
  The answer key is only ever read with \<open>.get\<close>, so it is a partial map.
\<close>

type_synonym ndarray = "8 word list list"

type_synonym ('k, 'v) dict = "('k \<times> 'v) list"

datatype error = ValueError | KeyError

text \<open>One entry of \<open>results\<close> in \<open>evaluate_answers\<close>.\<close>

record verdict =
  status :: string
  marked :: string
  correct :: "string option"
  is_correct :: bool

text \<open>The dictionary returned by \<open>process_omr_sheet\<close>.\<close>

record omr_result =
  total_score :: int
  detailed_results :: "(nat, verdict) dict"
  processed_image :: ndarray
  extracted_answers :: "(nat, string option) dict"

section \<open>Array primitives\<close>

text \<open>\<open>thresh.shape\<close>: the number of rows, and the length of a row.\<close>

definition shape_height :: "ndarray \<Rightarrow> nat" where
  "shape_height a = length a"

definition shape_width :: "ndarray \<Rightarrow> nat" where
  "shape_width a = (case a of [] \<Rightarrow> 0 | r # _ \<Rightarrow> length r)"

text \<open>An array has rows of one length.\<close>

definition rectangular :: "ndarray \<Rightarrow> bool" where
  "rectangular a = list_all (\<lambda>r. length r = shape_width a) a"

text \<open>
  \<open>xs[s:e]\<close> for indices \<open>0 \<le> s\<close> and \<open>0 \<le> e\<close>: a slice is cut at the end of the sequence
  and is empty when \<open>e \<le> s\<close>; it never raises.
\<close>

definition slice :: "nat \<Rightarrow> nat \<Rightarrow> 'a list \<Rightarrow> 'a list" where
  "slice s e xs = drop s (take e xs)"

text \<open>\<open>a[ys:ye, xs:xe]\<close> and \<open>a[ys:ye, :]\<close>.\<close>

definition slice2 :: "nat \<Rightarrow> nat \<Rightarrow> nat \<Rightarrow> nat \<Rightarrow> ndarray \<Rightarrow> ndarray" where
  "slice2 ys ye xs xe a = map (slice xs xe) (slice ys ye a)"

definition slice_rows :: "nat \<Rightarrow> nat \<Rightarrow> ndarray \<Rightarrow> ndarray" where
  "slice_rows ys ye a = slice ys ye a"

text \<open>
  \<open>np.sum\<close> of a \<open>uint8\<close> array adds the samples in an unsigned accumulator of the
  width of the platform integer, 64 bits here. A region would need more than
  \<open>2 ^ 64 div 255\<close> samples for the accumulator to wrap, which no array in memory has, so
  the sum is the sum of the samples' values.
\<close>

definition np_sum :: "ndarray \<Rightarrow> nat" where
  "np_sum a = sum_list (map (\<lambda>r. sum_list (map unat r)) a)"

text \<open>The number of samples of a region that are foreground (255).\<close>

definition count_foreground :: "ndarray \<Rightarrow> nat" where
  "count_foreground a = sum_list (map (\<lambda>r. length (filter (\<lambda>p. p = 255) r)) a)"

section \<open>\<open>detect_bubbles\<close>\<close>

text \<open>
  The region of one question: \<open>thresh[y_start:y_end, x_start:x_end]\<close>.
\<close>

definition bubble_region_of :: "ndarray \<Rightarrow> nat \<Rightarrow> nat \<Rightarrow> nat \<Rightarrow> nat \<Rightarrow> ndarray" where
  "bubble_region_of thresh col_width row_height col row =
     (let x_start = col * col_width;
          y_start = row * row_height;
          x_end = x_start + col_width;
          y_end = y_start + row_height
      in slice2 y_start y_end x_start x_end thresh)"

text \<open>
  The band of one option: \<open>bubble_region[y_opt_start:y_opt_end, :]\<close>.
\<close>

definition option_region_of :: "ndarray \<Rightarrow> nat \<Rightarrow> nat \<Rightarrow> ndarray" where
  "option_region_of bubble_region option_height opt_idx =
     (let y_opt_start = opt_idx * option_height;
          y_opt_end = y_opt_start + option_height
      in slice_rows y_opt_start y_opt_end bubble_region)"

text \<open>
  \<open>np.sum(option_region) / 255\<close> is a true division, so the intensity is a fraction,
  here the exact quotient. (The division of two floating-point numbers is rounded to the
  nearest one; a quotient that is a whole number below \<open>2 ^ 53\<close> is not changed by
  that.)
\<close>

definition ink_score :: "ndarray \<Rightarrow> rat" where
  "ink_score option_region = of_nat (np_sum option_region) / 255"

text \<open>The loop over \<open>enumerate(['a', 'b', 'c', 'd'])\<close>.\<close>

fun options_loop ::
  "ndarray \<Rightarrow> nat \<Rightarrow> (nat \<times> string) list \<Rightarrow> (string, rat) dict \<Rightarrow> (string, rat) dict" where
  "options_loop bubble_region option_height [] options_intensity = options_intensity"
| "options_loop bubble_region option_height ((opt_idx, option) # rest) options_intensity =
     (let option_region = option_region_of bubble_region option_height opt_idx;
          intensity = ink_score option_region
      in options_loop bubble_region option_height rest
           (AList.update option intensity options_intensity))"

text \<open>The body of the loop over \<open>row\<close>, up to the assignment to \<open>bubbles[q_num]\<close>.\<close>

definition question_options :: "ndarray \<Rightarrow> nat \<Rightarrow> nat \<Rightarrow> nat \<Rightarrow> nat \<Rightarrow> (string, rat) dict" where
  "question_options thresh col_width row_height col row =
     (let bubble_region = bubble_region_of thresh col_width row_height col row;
          option_height = row_height div 4
      in options_loop bubble_region option_height
           (enumerate 0 [''a'', ''b'', ''c'', ''d'']) [])"

fun rows_loop ::
  "ndarray \<Rightarrow> nat \<Rightarrow> nat \<Rightarrow> nat \<Rightarrow> nat \<Rightarrow> nat list \<Rightarrow>
   (nat, (string, rat) dict) dict \<Rightarrow> (nat, (string, rat) dict) dict" where
  "rows_loop thresh rows col_width row_height col [] bubbles = bubbles"
| "rows_loop thresh rows col_width row_height col (row # rest) bubbles =
     (let q_num = col * rows + row + 1;
          options_intensity = question_options thresh col_width row_height col row
      in rows_loop thresh rows col_width row_height col rest
           (AList.update q_num options_intensity bubbles))"

fun cols_loop ::
  "ndarray \<Rightarrow> nat \<Rightarrow> nat \<Rightarrow> nat \<Rightarrow> nat list \<Rightarrow>
   (nat, (string, rat) dict) dict \<Rightarrow> (nat, (string, rat) dict) dict" where
  "cols_loop thresh rows col_width row_height [] bubbles = bubbles"
| "cols_loop thresh rows col_width row_height (col # rest) bubbles =
     cols_loop thresh rows col_width row_height rest
       (rows_loop thresh rows col_width row_height col [0..<rows] bubbles)"

definition detect_bubbles :: "ndarray \<Rightarrow> (nat, (string, rat) dict) dict" where
  "detect_bubbles thresh =
     (let height = shape_height thresh;
          width = shape_width thresh;
          cols = 5;
          rows = 20;
          col_width = width div cols;
          row_height = height div rows
      in cols_loop thresh rows col_width row_height [0..<cols] [])"

section \<open>\<open>extract_answers\<close>\<close>

text \<open>
  \<open>max(items, key=lambda x: x[1])\<close> walks the items in order and replaces the best one
  only by an item whose key is strictly greater, so the first of several maximal items
  is returned.
\<close>

fun max_by_value :: "('k \<times> rat) \<Rightarrow> ('k \<times> rat) list \<Rightarrow> ('k \<times> rat)" where
  "max_by_value best [] = best"
| "max_by_value best (x # xs) = max_by_value (if snd x > snd best then x else best) xs"

text \<open>
  The body of the loop for one question. \<open>options[marked_option]\<close> raises \<open>KeyError\<close> on
  a missing key.
\<close>

definition extract_answer :: "(string, rat) dict \<Rightarrow> error + string option" where
  "extract_answer options =
     (case options of
        [] \<Rightarrow> Inr None
      | item # items \<Rightarrow>
          (let marked_option = fst (max_by_value item items)
           in case map_of options marked_option of
                None \<Rightarrow> Inl KeyError
              | Some v \<Rightarrow> if v > 50 then Inr (Some marked_option) else Inr None))"

fun extract_loop ::
  "('q, (string, rat) dict) dict \<Rightarrow> ('q, string option) dict \<Rightarrow>
   error + ('q, string option) dict" where
  "extract_loop [] answers = Inr answers"
| "extract_loop ((q_num, options) # rest) answers =
     (case extract_answer options of
        Inl e \<Rightarrow> Inl e
      | Inr answer \<Rightarrow> extract_loop rest (AList.update q_num answer answers))"

definition extract_answers ::
  "('q, (string, rat) dict) dict \<Rightarrow> error + ('q, string option) dict" where
  "extract_answers bubbles = extract_loop bubbles []"

section \<open>\<open>evaluate_answers\<close>\<close>

text \<open>\<open>self.answer_key.get(q_num)\<close> is \<open>None\<close> for a question the key does not hold.\<close>

fun evaluate_loop ::
  "('q \<rightharpoonup> string) \<Rightarrow> ('q, string option) dict \<Rightarrow> int \<Rightarrow> ('q, verdict) dict \<Rightarrow>
   int \<times> ('q, verdict) dict" where
  "evaluate_loop answer_key [] score results = (score, results)"
| "evaluate_loop answer_key ((q_num, student_answer) # rest) score results =
     (let correct_answer = answer_key q_num
      in case student_answer of
           None \<Rightarrow>
             evaluate_loop answer_key rest score
               (AList.update q_num
                  \<lparr>status = ''Not Attempted'', marked = ''None'',
                   correct = correct_answer, is_correct = False\<rparr> results)
         | Some answer \<Rightarrow>
             if student_answer = correct_answer then
               evaluate_loop answer_key rest (score + 1)
                 (AList.update q_num
                    \<lparr>status = ''Correct'', marked = answer,
                     correct = correct_answer, is_correct = True\<rparr> results)
             else
               evaluate_loop answer_key rest score
                 (AList.update q_num
                    \<lparr>status = ''Incorrect'', marked = answer,
                     correct = correct_answer, is_correct = False\<rparr> results))"

definition evaluate_answers ::
  "('q \<rightharpoonup> string) \<Rightarrow> ('q, string option) dict \<Rightarrow> int \<times> ('q, verdict) dict" where
  "evaluate_answers answer_key extracted =
     evaluate_loop answer_key extracted 0 []"

section \<open>\<open>process_omr_sheet\<close>\<close>

text \<open>
  \<open>cv2.imread\<close> and the three OpenCV calls of \<open>preprocess_image\<close> are library code. The
  model takes their outcome: \<open>None\<close> when the image could not be loaded, which raises
  \<open>ValueError\<close>, and otherwise the binarized sheet.
\<close>

definition process_omr_sheet :: "(nat \<rightharpoonup> string) \<Rightarrow> ndarray option \<Rightarrow> error + omr_result" where
  "process_omr_sheet answer_key loaded =
     (case loaded of
        None \<Rightarrow> Inl ValueError
      | Some processed \<Rightarrow>
          (let bubbles = detect_bubbles processed
           in case extract_answers bubbles of
                Inl e \<Rightarrow> Inl e
              | Inr extracted \<Rightarrow>
                  (case evaluate_answers answer_key extracted of
                     (score, detailed) \<Rightarrow>
                       Inr \<lparr>total_score = score,
                            detailed_results = detailed,
                            processed_image = processed,
                            extracted_answers = extracted\<rparr>)))"

section \<open>Closed forms used in the proofs\<close>

text \<open>
  The verdict that one pass of the loop of \<open>evaluate_answers\<close> writes for an item of
  the answer map, and the test under which that pass adds one to the score.
\<close>

definition verdict_of :: "('q \<rightharpoonup> string) \<Rightarrow> 'q \<times> string option \<Rightarrow> 'q \<times> verdict" where
  "verdict_of answer_key item =
     (case item of
        (q_num, None) \<Rightarrow>
          (q_num, \<lparr>status = ''Not Attempted'', marked = ''None'',
                   correct = answer_key q_num, is_correct = False\<rparr>)
      | (q_num, Some answer) \<Rightarrow>
          (q_num, \<lparr>status = (if Some answer = answer_key q_num then ''Correct'' else ''Incorrect''),
                   marked = answer, correct = answer_key q_num,
                   is_correct = (Some answer = answer_key q_num)\<rparr>))"

definition matches_key :: "('q \<rightharpoonup> string) \<Rightarrow> 'q \<times> string option \<Rightarrow> bool" where
  "matches_key answer_key item = (snd item \<noteq> None \<and> snd item = answer_key (fst item))"

text \<open>
  The entries that the loop over \<open>row\<close> adds to \<open>bubbles\<close> for one column of the grid.
\<close>

definition grid_column :: "ndarray \<Rightarrow> nat \<Rightarrow> nat \<Rightarrow> nat \<Rightarrow> nat \<Rightarrow> (nat, (string, rat) dict) dict" where
  "grid_column thresh rows col_width row_height col =
     map (\<lambda>row. (col * rows + row + 1, question_options thresh col_width row_height col row)) [0..<rows]"

text \<open>
  The answer that one pass of the loop of \<open>extract_answers\<close> stores for an intensity
  map.
\<close>

definition marked_answer :: "('k, rat) dict \<Rightarrow> 'k option" where
  "marked_answer options =
     (case options of
        [] \<Rightarrow> None
      | item # items \<Rightarrow>
          (let best = max_by_value item items
           in if snd best > 50 then Some (fst best) else None))"

section \<open>Dictionaries\<close>

lemma update_fresh: "k \<notin> fst ` set al \<Longrightarrow> AList.update k v al = al @ [(k, v)]"
  by (induction al) auto

section \<open>The grid mapper\<close>

lemma question_options_eq:
  "question_options thresh col_width row_height col row =
     [(''a'', ink_score (option_region_of (bubble_region_of thresh col_width row_height col row) (row_height div 4) 0)),
      (''b'', ink_score (option_region_of (bubble_region_of thresh col_width row_height col row) (row_height div 4) 1)),
      (''c'', ink_score (option_region_of (bubble_region_of thresh col_width row_height col row) (row_height div 4) 2)),
      (''d'', ink_score (option_region_of (bubble_region_of thresh col_width row_height col row) (row_height div 4) 3))]"
proof -
  have e: "enumerate 0 [''a'', ''b'', ''c'', ''d''] = [(0, ''a''), (1, ''b''), (2, ''c''), (3, ''d'')]"
    by (simp add: numeral_2_eq_2 numeral_3_eq_3)
  show ?thesis
    unfolding question_options_def e by (simp add: Let_def)
qed

lemma question_options_keys:
  "map fst (question_options thresh col_width row_height col row) = [''a'', ''b'', ''c'', ''d'']"
  by (simp add: question_options_eq)

lemma rows_loop_closed:
  "distinct rs \<Longrightarrow> \<forall>row \<in> set rs. col * rows + row + 1 \<notin> fst ` set bubbles \<Longrightarrow>
   rows_loop thresh rows col_width row_height col rs bubbles
     = bubbles @ map (\<lambda>row. (col * rows + row + 1,
                         question_options thresh col_width row_height col row)) rs"
proof (induction rs arbitrary: bubbles)
  case Nil
  then show ?case by simp
next
  case (Cons row rs)
  from Cons.prems have fresh: "col * rows + row + 1 \<notin> fst ` set bubbles"
    and d: "distinct rs" and nr: "row \<notin> set rs"
    and rest: "\<forall>row' \<in> set rs. col * rows + row' + 1 \<notin> fst ` set bubbles"
    by auto
  have "\<forall>row' \<in> set rs. col * rows + row' + 1 \<notin> fst ` set (bubbles @ [(col * rows + row + 1, v)])" for v
    using rest nr by auto
  from Cons.IH [OF d this] fresh show ?case
    by (simp add: Let_def update_fresh)
qed

lemma grid_column_keys:
  "map fst (grid_column thresh rows col_width row_height col) = [col * rows + 1..<col * rows + rows + 1]"
proof -
  have "map fst (grid_column thresh rows col_width row_height col)
      = map (\<lambda>row. row + (col * rows + 1)) [0..<rows]"
    by (simp add: grid_column_def comp_def)
  also have "\<dots> = [col * rows + 1..<rows + (col * rows + 1)]"
    by (rule map_add_upt)
  finally show ?thesis by (simp add: add.commute add.left_commute)
qed

lemma cols_loop_closed:
  "map fst bubbles = [1..<c0 * rows + 1] \<Longrightarrow>
   cols_loop thresh rows col_width row_height [c0..<c1] bubbles
     = bubbles @ concat (map (grid_column thresh rows col_width row_height) [c0..<c1])"
proof (induction "c1 - c0" arbitrary: c0 bubbles)
  case 0
  then show ?case by simp
next
  case (Suc n)
  then have lt: "c0 < c1" and n: "n = c1 - Suc c0" by simp_all
  have fresh: "\<forall>row \<in> set [0..<rows]. c0 * rows + row + 1 \<notin> fst ` set bubbles"
  proof -
    have "fst ` set bubbles = set (map fst bubbles)" by simp
    also have "\<dots> = {1..<c0 * rows + 1}" by (simp only: Suc.prems set_upt)
    finally show ?thesis by simp
  qed
  have step: "rows_loop thresh rows col_width row_height c0 [0..<rows] bubbles
      = bubbles @ grid_column thresh rows col_width row_height c0"
    unfolding grid_column_def by (rule rows_loop_closed [OF distinct_upt fresh])
  have keys: "map fst (bubbles @ grid_column thresh rows col_width row_height c0)
      = [1..<Suc c0 * rows + 1]"
  proof -
    have "[1..<c0 * rows + 1] @ [c0 * rows + 1..<c0 * rows + rows + 1] = [1..<c0 * rows + rows + 1]"
      using upt_add_eq_append [of 1 "c0 * rows + 1" rows] by (simp add: add.commute add.left_commute)
    then show ?thesis
      by (simp add: Suc.prems grid_column_keys add.commute)
  qed
  from Suc.hyps(1) [OF n keys] show ?case
    by (simp add: upt_conv_Cons [OF lt] step)
qed

lemma detect_bubbles_closed:
  "detect_bubbles thresh =
     concat (map (grid_column thresh 20 (shape_width thresh div 5) (shape_height thresh div 20)) [0..<5])"
  using cols_loop_closed [of "[]" 0 20 thresh "shape_width thresh div 5" "shape_height thresh div 20" 5]
  by (simp add: detect_bubbles_def Let_def)

section \<open>The mark extractor\<close>

lemma max_by_value_in: "max_by_value best xs \<in> set (best # xs)"
  by (induction xs arbitrary: best) auto

lemma max_by_value_ge: "x \<in> set (best # xs) \<Longrightarrow> snd x \<le> snd (max_by_value best xs)"
proof (induction xs arbitrary: best x)
  case Nil
  then show ?case by simp
next
  case (Cons y ys)
  let ?b = "if snd y > snd best then y else best"
  have step: "max_by_value best (y # ys) = max_by_value ?b ys" by simp
  have b: "snd ?b \<le> snd (max_by_value ?b ys)"
    by (rule Cons.IH) simp
  from Cons.prems consider "x = best" | "x = y" | "x \<in> set ys" by auto
  then show ?case
  proof cases
    case 1
    then have "snd x \<le> snd ?b" by simp
    from this b show ?thesis unfolding step by (rule order_trans)
  next
    case 2
    then have "snd x \<le> snd ?b" by simp
    from this b show ?thesis unfolding step by (rule order_trans)
  next
    case 3
    then have "x \<in> set (?b # ys)" by simp
    then show ?thesis unfolding step by (rule Cons.IH)
  qed
qed

lemma max_by_value_Max:
  "snd (max_by_value best xs) = Max (snd ` set (best # xs))"
proof (rule sym, rule Max_eqI)
  show "finite (snd ` set (best # xs))" by simp
  show "y \<le> snd (max_by_value best xs)" if "y \<in> snd ` set (best # xs)" for y
    using that max_by_value_ge [of _ best xs] by blast
  show "snd (max_by_value best xs) \<in> snd ` set (best # xs)"
    using max_by_value_in [of best xs] by blast
qed

text \<open>The first maximal item wins.\<close>
lemma max_by_value_first:
  "max_by_value best xs = best \<and> (\<forall>x \<in> set xs. snd x \<le> snd best)
   \<or> (\<exists>pre post. xs = pre @ max_by_value best xs # post
        \<and> (\<forall>x \<in> set (best # pre). snd x < snd (max_by_value best xs)))"
proof (induction xs arbitrary: best)
  case Nil
  then show ?case by simp
next
  case (Cons y ys)
  let ?b = "if snd y > snd best then y else best"
  let ?r = "max_by_value ?b ys"
  have step: "max_by_value best (y # ys) = ?r" by simp
  from Cons.IH [of ?b] consider
    (stay) "?r = ?b" "\<forall>x \<in> set ys. snd x \<le> snd ?b"
    | (move) pre post where "ys = pre @ ?r # post" "\<forall>x \<in> set (?b # pre). snd x < snd ?r"
    by blast
  then show ?case
  proof cases
    case stay
    show ?thesis
    proof (cases "snd y > snd best")
      case True
      with stay have "y # ys = [] @ ?r # ys" and "\<forall>x \<in> set (best # []). snd x < snd ?r"
        by simp_all
      then show ?thesis unfolding step by blast
    next
      case False
      with stay show ?thesis unfolding step by auto
    qed
  next
    case move
    have "y # ys = (y # pre) @ ?r # post"
      using move(1) by simp
    moreover have "\<forall>x \<in> set (best # y # pre). snd x < snd ?r"
      using move(2) by (auto split: if_splits)
    ultimately show ?thesis unfolding step by blast
  qed
qed

lemma find_append_skip: "find P xs = None \<Longrightarrow> find P (xs @ ys) = find P ys"
  by (induction xs) (auto split: if_splits)

lemma find_first_max:
  "find (\<lambda>x. snd x = Max (snd ` set (item # items))) (item # items)
     = Some (max_by_value item items)"
proof -
  define M where "M = Max (snd ` set (item # items))"
  define r where "r = max_by_value item items"
  have r: "snd r = M"
    unfolding M_def r_def by (rule max_by_value_Max)
  from max_by_value_first [of item items] consider
    (stay) "r = item"
    | (move) pre post where "items = pre @ r # post" "\<forall>x \<in> set (item # pre). snd x < snd r"
    unfolding r_def by blast
  then have "find (\<lambda>x. snd x = M) (item # items) = Some r"
  proof cases
    case stay
    with r show ?thesis by simp
  next
    case move
    have "\<not> (\<exists>x. x \<in> set (item # pre) \<and> snd x = M)"
      using move(2) r by auto
    then have "find (\<lambda>x. snd x = M) (item # pre) = None"
      unfolding find_None_iff .
    then have "find (\<lambda>x. snd x = M) ((item # pre) @ r # post) = Some r"
      using r by (simp add: find_append_skip del: find.simps append_Cons) simp
    then show ?thesis using move(1) by simp
  qed
  then show ?thesis
    unfolding M_def r_def .
qed

lemma extract_answer_marked:
  assumes "distinct (map fst options)"
  shows "extract_answer options = Inr (marked_answer options)"
proof (cases options)
  case Nil
  then show ?thesis by (simp add: extract_answer_def marked_answer_def)
next
  case (Cons item items)
  let ?r = "max_by_value item items"
  have "(fst ?r, snd ?r) \<in> set options"
    using max_by_value_in [of item items] Cons by simp
  with assms have "map_of options (fst ?r) = Some (snd ?r)"
    by (rule map_of_is_SomeI)
  then show ?thesis
    by (simp add: extract_answer_def marked_answer_def Cons Let_def)
qed

lemma extract_answer_total: "\<exists>answer. extract_answer options = Inr answer"
proof (cases options)
  case Nil
  then show ?thesis by (simp add: extract_answer_def)
next
  case (Cons item items)
  let ?r = "max_by_value item items"
  have "fst ?r \<in> fst ` set options"
    using max_by_value_in [of item items] Cons by (metis imageI)
  then obtain v where "map_of options (fst ?r) = Some v"
    by (metis map_of_eq_None_iff not_Some_eq)
  then show ?thesis
    by (simp add: extract_answer_def Cons Let_def)
qed

lemma extract_loop_closed:
  "distinct (map fst bubbles) \<Longrightarrow> fst ` set bubbles \<inter> fst ` set answers = {} \<Longrightarrow>
   \<forall>entry \<in> set bubbles. distinct (map fst (snd entry)) \<Longrightarrow>
   extract_loop bubbles answers
     = Inr (answers @ map (\<lambda>entry. (fst entry, marked_answer (snd entry))) bubbles)"
proof (induction bubbles arbitrary: answers)
  case Nil
  then show ?case by simp
next
  case (Cons entry bubbles)
  obtain q options where entry: "entry = (q, options)" by (cases entry)
  from Cons.prems have fresh: "q \<notin> fst ` set answers" and d: "distinct (map fst bubbles)"
    and nq: "q \<notin> fst ` set bubbles" and dd: "\<forall>entry \<in> set bubbles. distinct (map fst (snd entry))"
    and dq: "distinct (map fst options)"
    by (auto simp: entry)
  have disj: "fst ` set bubbles \<inter> fst ` set (answers @ [(q, v)]) = {}" for v
    using Cons.prems nq by (auto simp: entry)
  show ?case
    using Cons.IH [OF d disj dd]
    by (simp add: entry extract_answer_marked [OF dq] update_fresh [OF fresh])
qed

lemma extract_answers_closed:
  "distinct (map fst bubbles) \<Longrightarrow> \<forall>entry \<in> set bubbles. distinct (map fst (snd entry)) \<Longrightarrow>
   extract_answers bubbles = Inr (map (\<lambda>entry. (fst entry, marked_answer (snd entry))) bubbles)"
  by (simp add: extract_answers_def extract_loop_closed)

section \<open>The enumeration of the questions\<close>

lemma length_grid_column [simp]:
  "length (grid_column thresh rows col_width row_height col) = rows"
  by (simp add: grid_column_def)

lemma concat_nth_uniform:
  "\<forall>xs \<in> set xss. length xs = m \<Longrightarrow> c < length xss \<Longrightarrow> r < m \<Longrightarrow>
   concat xss ! (c * m + r) = xss ! c ! r"
proof (induction xss arbitrary: c)
  case Nil
  then show ?case by simp
next
  case (Cons xs xss)
  then have len: "length xs = m" by simp
  show ?case
  proof (cases c)
    case 0
    with Cons.prems len show ?thesis by (simp add: nth_append)
  next
    case (Suc c')
    with Cons.prems have "concat xss ! (c' * m + r) = xss ! c' ! r"
      by (intro Cons.IH) simp_all
    with Suc len show ?thesis by (simp add: nth_append)
  qed
qed

lemma detect_bubbles_keys: "map fst (detect_bubbles thresh) = [1..<101]"
proof -
  have "map fst (detect_bubbles thresh)
      = concat (map (\<lambda>col. [col * 20 + 1..<col * 20 + 20 + 1]) [0..<5])"
    by (simp add: detect_bubbles_closed map_concat comp_def grid_column_keys)
  also have "\<dots> = [1..<21] @ [21..<41] @ [41..<61] @ [61..<81] @ [81..<101]"
  proof -
    have five: "[0..<5] = [0, 1, 2, 3, 4 :: nat]"
      by (simp add: upt_rec)
    show ?thesis
      unfolding five by (simp del: upt_rec_numeral upt.simps)
  qed
  also have "\<dots> = [1..<101]"
    using upt_add_eq_append [of 1 21 20] upt_add_eq_append [of 1 41 20]
      upt_add_eq_append [of 1 61 20] upt_add_eq_append [of 1 81 20]
    by (simp del: upt_rec_numeral upt.simps)
  finally show ?thesis .
qed

lemma detect_bubbles_nth:
  assumes "col < 5" and "row < 20"
  shows "detect_bubbles thresh ! (col * 20 + row)
     = (col * 20 + row + 1,
        question_options thresh (shape_width thresh div 5) (shape_height thresh div 20) col row)"
proof -
  let ?g = "grid_column thresh 20 (shape_width thresh div 5) (shape_height thresh div 20)"
  have "concat (map ?g [0..<5]) ! (col * 20 + row) = map ?g [0..<5] ! col ! row"
    using assms by (intro concat_nth_uniform) simp_all
  also have "\<dots> = ?g col ! row"
    using assms by simp
  also have "\<dots> = (col * 20 + row + 1,
        question_options thresh (shape_width thresh div 5) (shape_height thresh div 20) col row)"
    using assms by (simp add: grid_column_def)
  finally show ?thesis by (simp only: detect_bubbles_closed)
qed

lemma detect_bubbles_options:
  assumes "(q_num, options) \<in> set (detect_bubbles thresh)"
  shows "\<exists>col row. col < 5 \<and> row < 20 \<and> q_num = col * 20 + row + 1
           \<and> options = question_options thresh (shape_width thresh div 5)
                          (shape_height thresh div 20) col row"
  using assms by (auto simp: detect_bubbles_closed grid_column_def simp del: upt_rec_numeral)

lemma detect_bubbles_distinct:
  "distinct (map fst (detect_bubbles thresh))"
  by (simp only: detect_bubbles_keys distinct_upt)

lemma detect_bubbles_options_distinct:
  "\<forall>entry \<in> set (detect_bubbles thresh). distinct (map fst (snd entry))"
proof
  fix entry assume "entry \<in> set (detect_bubbles thresh)"
  then have "(fst entry, snd entry) \<in> set (detect_bubbles thresh)" by simp
  from detect_bubbles_options [OF this] show "distinct (map fst (snd entry))"
    by (auto simp: question_options_keys)
qed

lemma extract_detect_closed:
  "extract_answers (detect_bubbles thresh)
     = Inr (map (\<lambda>entry. (fst entry, marked_answer (snd entry))) (detect_bubbles thresh))"
  by (rule extract_answers_closed [OF detect_bubbles_distinct detect_bubbles_options_distinct])

lemma marked_answer_four:
  "marked_answer [(''a'', sa), (''b'', sb), (''c'', sc), (''d'', sd)]
     = (if Max {sa, sb, sc, sd} > 50
        then Some (if sa = Max {sa, sb, sc, sd} then ''a''
                   else if sb = Max {sa, sb, sc, sd} then ''b''
                   else if sc = Max {sa, sb, sc, sd} then ''c'' else ''d'')
        else None)"
  by (simp add: marked_answer_def Let_def max_def)

lemma marked_answer_Max:
  assumes "options \<noteq> []"
  shows "marked_answer options
     = (if Max (snd ` set options) > 50
        then map_option fst (find (\<lambda>x. snd x = Max (snd ` set options)) options)
        else None)"
proof -
  from assms obtain item items where o: "options = item # items"
    by (cases options) auto
  show ?thesis
    unfolding o find_first_max
    by (simp only: marked_answer_def list.case Let_def max_by_value_Max option.map)
qed

lemma map_of_marked:
  assumes d: "distinct (map fst bubbles)" and m: "(q, options) \<in> set bubbles"
  shows "map_of (map (\<lambda>entry. (fst entry, marked_answer (snd entry))) bubbles) q
           = Some (marked_answer options)"
proof -
  let ?f = "\<lambda>entry. (fst entry, marked_answer (snd entry))"
  have "distinct (map fst (map ?f bubbles))"
    using d by (simp add: comp_def)
  moreover have "(q, marked_answer options) \<in> set (map ?f bubbles)"
    using m by force
  ultimately show ?thesis by (rule map_of_is_SomeI)
qed

lemma sum_binary_row:
  "\<forall>p \<in> set r. p = 0 \<or> p = (255 :: 8 word) \<Longrightarrow>
   sum_list (map unat r) = 255 * length (filter (\<lambda>p. p = 255) r)"
  by (induction r) auto

lemma np_sum_binary:
  "\<forall>r \<in> set a. \<forall>p \<in> set r. p = 0 \<or> p = 255 \<Longrightarrow> np_sum a = 255 * count_foreground a"
  by (induction a) (simp_all add: np_sum_def count_foreground_def sum_binary_row distrib_left)

lemma ink_score_binary:
  "\<forall>r \<in> set a. \<forall>p \<in> set r. p = 0 \<or> p = 255 \<Longrightarrow> ink_score a = of_nat (count_foreground a)"
  by (simp add: ink_score_def np_sum_binary)

lemma set_slice: "set (slice s e xs) \<subseteq> set xs"
  unfolding slice_def by (meson set_drop_subset set_take_subset subset_trans)

lemma binary_option_region:
  assumes "\<forall>r \<in> set thresh. \<forall>p \<in> set r. p = 0 \<or> p = 255"
  shows "\<forall>r \<in> set (option_region_of (bubble_region_of thresh col_width row_height col row)
                      option_height opt_idx). \<forall>p \<in> set r. p = 0 \<or> p = 255"
proof (intro ballI)
  fix r p
  assume r: "r \<in> set (option_region_of (bubble_region_of thresh col_width row_height col row)
                      option_height opt_idx)" and p: "p \<in> set r"
  from r have "r \<in> set (bubble_region_of thresh col_width row_height col row)"
    using set_slice by (fastforce simp: option_region_of_def slice_rows_def Let_def)
  then obtain r0 xs xe where "r0 \<in> set thresh" and "r = slice xs xe r0"
    using set_slice [of _ _ thresh] by (fastforce simp: bubble_region_of_def slice2_def Let_def)
  with p set_slice [of xs xe r0] have "p \<in> set r0" by blast
  with \<open>r0 \<in> set thresh\<close> assms show "p = 0 \<or> p = 255" by blast
qed

section \<open>Sheets of one colour\<close>

lemma shape_width_replicate: "0 < n \<Longrightarrow> shape_width (replicate n r) = length r"
  by (cases n) (simp_all add: shape_width_def)

lemma shape_height_replicate: "shape_height (replicate n r) = n"
  by (simp add: shape_height_def)

lemma option_region_uniform:
  "option_region_of (bubble_region_of (replicate h (replicate w p)) col_width row_height col row)
      option_height opt_idx
   = replicate (min (opt_idx * option_height + option_height) (min (row * row_height + row_height) h - row * row_height) - opt_idx * option_height)
       (replicate (min (col * col_width + col_width) w - col * col_width) p)"
  by (simp add: option_region_of_def bubble_region_of_def slice2_def slice_def slice_rows_def Let_def)

lemma ink_score_single:
  "ink_score [replicate m p] = of_nat (m * unat p) / 255"
  by (simp add: ink_score_def np_sum_def sum_list_replicate)

section \<open>Slices\<close>

lemma length_slice: "length (slice s e xs) = min e (length xs) - s"
  by (simp add: slice_def min.commute)

lemma nth_slice: "s + i < min e (length xs) \<Longrightarrow> slice s e xs ! i = xs ! (s + i)"
  by (simp add: slice_def)

lemma rectangular_row: "rectangular thresh \<Longrightarrow> r \<in> set thresh \<Longrightarrow> length r = shape_width thresh"
  by (simp add: rectangular_def list_all_iff)

lemma slice_bound: "k < n \<Longrightarrow> k * (m div n) + m div n \<le> (m::nat)"
proof -
  assume "k < n"
  then have "Suc k \<le> n" by simp
  then have "Suc k * (m div n) \<le> n * (m div n)"
    by (rule mult_le_mono1)
  also have "\<dots> \<le> m" by simp
  finally show ?thesis by simp
qed

lemma offset_bound: "k < n \<Longrightarrow> j < d \<Longrightarrow> k * d + j < n * d" for k n j d :: nat
proof -
  assume "k < n" and "j < d"
  then have "Suc k \<le> n" by simp
  then have "Suc k * d \<le> n * d"
    by (rule mult_le_mono1)
  moreover have "k * d + j < Suc k * d"
    using \<open>j < d\<close> by simp
  ultimately show ?thesis by (rule less_le_trans [rotated])
qed

lemma remainder_eq: "m - m mod n = n * (m div n)" for m n :: nat
  by (simp add: minus_mod_eq_mult_div)

section \<open>A sheet with ink in its right margin only\<close>

lemma option_region_rows:
  "option_region_of (bubble_region_of (replicate h r) col_width row_height col row)
      option_height opt_idx
   = replicate (min (opt_idx * option_height + option_height) (min (row * row_height + row_height) h - row * row_height) - opt_idx * option_height)
       (slice (col * col_width) (col * col_width + col_width) r)"
  by (simp add: option_region_of_def bubble_region_of_def slice2_def slice_def slice_rows_def Let_def)

lemma ink_score_rows:
  "ink_score (replicate n r) = of_nat (n * sum_list (map unat r)) / 255"
  by (simp add: ink_score_def np_sum_def sum_list_replicate)

lemma margin_cell:
  assumes "col < 5" and "row < 20"
  shows "question_options (replicate 80 (replicate 5 0 @ replicate 4 255)) 1 4 col row
     = [(''a'', 0), (''b'', 0), (''c'', 0), (''d'', 0)]"
proof -
  have "take (Suc col) (replicate 5 0 @ replicate 4 (255 :: 8 word)) = replicate (Suc col) 0"
    using assms(1) by (simp add: min_def del: replicate.simps)
  then have s: "slice col (Suc col) (replicate 5 0 @ replicate 4 (255 :: 8 word)) = [0]"
    unfolding slice_def by (simp del: replicate.simps) simp
  show ?thesis
    by (simp add: question_options_eq option_region_rows ink_score_rows s)
qed

lemma margin_column:
  assumes "col < 5"
  shows "map snd (grid_column (replicate 80 (replicate 5 0 @ replicate 4 255)) 20 1 4 col)
     = replicate 20 [(''a'', 0), (''b'', 0), (''c'', 0), (''d'', 0)]"
proof -
  have "map snd (grid_column (replicate 80 (replicate 5 0 @ replicate 4 255)) 20 1 4 col)
      = map (\<lambda>row. question_options (replicate 80 (replicate 5 0 @ replicate 4 255)) 1 4 col row) [0..<20]"
    by (simp add: grid_column_def comp_def del: upt_rec_numeral)
  also have "\<dots> = map (\<lambda>row. [(''a'', 0), (''b'', 0), (''c'', 0), (''d'', 0)]) [0..<20]"
    using assms by (intro map_cong refl margin_cell) simp_all
  also have "\<dots> = replicate 20 [(''a'', 0), (''b'', 0), (''c'', 0), (''d'', 0)]"
    by (simp add: map_replicate_const del: upt_rec_numeral)
  finally show ?thesis .
qed

lemma margin_sheet:
  "map snd (detect_bubbles (replicate 80 (replicate 5 0 @ replicate 4 255)))
     = replicate 100 [(''a'', 0), (''b'', 0), (''c'', 0), (''d'', 0)]"
proof -
  let ?M = "replicate 80 (replicate 5 0 @ replicate 4 (255 :: 8 word))"
  let ?z = "[(''a'', 0 :: rat), (''b'', 0), (''c'', 0), (''d'', 0)]"
  have five: "[0..<5] = [0, 1, 2, 3, 4 :: nat]"
    by (simp add: upt_rec)
  have app: "replicate 20 ?z @ replicate 20 ?z @ replicate 20 ?z @ replicate 20 ?z @ replicate 20 ?z
      = replicate 100 ?z"
    by (simp add: replicate_add [symmetric])
  have "map snd (detect_bubbles ?M)
      = concat (map (\<lambda>col. map snd (grid_column ?M 20 1 4 col)) [0..<5])"
    unfolding detect_bubbles_closed
    by (simp add: shape_width_replicate shape_height_replicate map_concat comp_def
          del: upt_rec_numeral)
  also have "map (\<lambda>col. map snd (grid_column ?M 20 1 4 col)) [0..<5]
      = map (\<lambda>col. replicate 20 ?z) [0..<5]"
    by (intro map_cong refl margin_column) simp
  also have "concat (map (\<lambda>col. replicate 20 ?z) [0..<5]) = replicate 100 ?z"
    unfolding five using app by simp
  finally show ?thesis .
qed

section \<open>The scorer\<close>

lemma fst_verdict_of [simp]: "fst (verdict_of answer_key item) = fst item"
  by (cases item) (auto simp: verdict_of_def split: option.splits)

lemma evaluate_loop_closed:
  "distinct (map fst items) \<Longrightarrow> fst ` set items \<inter> fst ` set results = {} \<Longrightarrow>
   evaluate_loop answer_key items score results =
     (score + int (length (filter (matches_key answer_key) items)),
      results @ map (verdict_of answer_key) items)"
proof (induction items arbitrary: score results)
  case Nil
  then show ?case by simp
next
  case (Cons item items)
  obtain q s where item: "item = (q, s)" by (cases item)
  from Cons.prems have fresh: "q \<notin> fst ` set results" and d: "distinct (map fst items)"
    and nq: "q \<notin> fst ` set items"
    by (auto simp: item)
  have disj: "fst ` set items \<inter> fst ` set (results @ [(q, v)]) = {}" for v
    using Cons.prems nq by (auto simp: item)
  show ?case
    using Cons.IH [OF d disj]
    by (cases s) (simp_all add: item update_fresh [OF fresh] verdict_of_def matches_key_def)
qed

lemma evaluate_answers_closed:
  "distinct (map fst answers) \<Longrightarrow>
   evaluate_answers answer_key answers =
     (int (length (filter (matches_key answer_key) answers)),
      map (verdict_of answer_key) answers)"
  by (simp add: evaluate_answers_def evaluate_loop_closed)

lemma status_verdict_of:
  "status (snd (verdict_of answer_key item)) = ''Correct'' \<longleftrightarrow> matches_key answer_key item"
  by (cases item) (auto simp: verdict_of_def matches_key_def split: option.splits)

lemma is_correct_verdict_of:
  "is_correct (snd (verdict_of answer_key item)) \<longleftrightarrow> matches_key answer_key item"
  by (cases item) (auto simp: verdict_of_def matches_key_def split: option.splits)

lemma map_of_verdicts:
  assumes d: "distinct (map fst answers)" and m: "(q, s) \<in> set answers"
  shows "map_of (map (verdict_of answer_key) answers) q = Some (snd (verdict_of answer_key (q, s)))"
proof -
  have "distinct (map fst (map (verdict_of answer_key) answers))"
    using d by (simp add: comp_def)
  moreover have "(q, snd (verdict_of answer_key (q, s))) \<in> set (map (verdict_of answer_key) answers)"
  proof -
    have "verdict_of answer_key (q, s) \<in> set (map (verdict_of answer_key) answers)"
      using m by simp
    moreover have "verdict_of answer_key (q, s) = (q, snd (verdict_of answer_key (q, s)))"
      by (metis fst_verdict_of fst_conv prod.collapse)
    ultimately show ?thesis by simp
  qed
  ultimately show ?thesis by (rule map_of_is_SomeI)
qed

lemma matches_key_filter:
  "filter (matches_key answer_key) (filter (\<lambda>item. snd item \<noteq> None) answers)
     = filter (matches_key answer_key) answers"
  by (induction answers) (auto simp: matches_key_def)

lemma status_values:
  "status (snd (verdict_of answer_key item)) \<in> {''Correct'', ''Incorrect'', ''Not Attempted''}"
  by (cases item) (auto simp: verdict_of_def split: option.splits)

section \<open>The whole pipeline\<close>

lemma process_closed:
  "process_omr_sheet answer_key (Some thresh)
     = Inr \<lparr>total_score = int (length (filter (matches_key answer_key)
               (map (\<lambda>entry. (fst entry, marked_answer (snd entry))) (detect_bubbles thresh)))),
            detailed_results = map (verdict_of answer_key)
               (map (\<lambda>entry. (fst entry, marked_answer (snd entry))) (detect_bubbles thresh)),
            processed_image = thresh,
            extracted_answers = map (\<lambda>entry. (fst entry, marked_answer (snd entry)))
               (detect_bubbles thresh)\<rparr>"
proof -
  let ?answers = "map (\<lambda>entry. (fst entry, marked_answer (snd entry))) (detect_bubbles thresh)"
  have "distinct (map fst ?answers)"
    using detect_bubbles_distinct [of thresh] by (simp add: comp_def)
  then have "evaluate_answers answer_key ?answers
      = (int (length (filter (matches_key answer_key) ?answers)),
         map (verdict_of answer_key) ?answers)"
    by (rule evaluate_answers_closed)
  then show ?thesis
    by (simp add: process_omr_sheet_def extract_detect_closed Let_def)
qed

lemma filter_drop_unmatched:
  "answer_key q = None \<Longrightarrow>
   filter (matches_key answer_key) (filter (\<lambda>item. fst item \<noteq> q) answers)
     = filter (matches_key answer_key) answers"
  by (induction answers) (auto simp: matches_key_def)

text \<open>A sheet that is ink all over: every question reads a.\<close>

lemma inked_cell:
  assumes "col < 5" and "row < 20"
  shows "question_options (replicate 80 (replicate 255 255)) 51 4 col row
     = [(''a'', 51), (''b'', 51), (''c'', 51), (''d'', 51)]"
proof -
  have "col * 51 + 51 \<le> 255" and "row * 4 + 4 \<le> 80"
    using assms by simp_all
  then show ?thesis
    by (simp add: question_options_eq option_region_uniform ink_score_single min_def)
qed

lemma inked_entry:
  assumes "(q, options) \<in> set (detect_bubbles (replicate 80 (replicate 255 255)))"
  shows "options = [(''a'', 51), (''b'', 51), (''c'', 51), (''d'', 51)]"
proof -
  from detect_bubbles_options [OF assms] obtain col row where "col < 5" and "row < 20"
    and "options = question_options (replicate 80 (replicate 255 255))
           (shape_width (replicate 80 (replicate 255 255)) div 5)
           (shape_height (replicate 80 (replicate 255 255)) div 20) col row"
    by blast
  then show ?thesis
    by (simp add: shape_width_replicate shape_height_replicate inked_cell)
qed

lemma inked_answers:
  "map (\<lambda>entry. (fst entry, marked_answer (snd entry))) (detect_bubbles (replicate 80 (replicate 255 255)))
     = map (\<lambda>q. (q, Some ''a'')) [1..<101]"
proof -
  let ?db = "detect_bubbles (replicate 80 (replicate 255 255))"
  have "map (\<lambda>entry. (fst entry, marked_answer (snd entry))) ?db
      = map (\<lambda>entry. (fst entry, Some ''a'')) ?db"
  proof (rule map_cong [OF refl])
    fix entry assume "entry \<in> set ?db"
    then have "(fst entry, snd entry) \<in> set ?db" by simp
    then have "snd entry = [(''a'', 51), (''b'', 51), (''c'', 51), (''d'', 51)]"
      by (rule inked_entry)
    then show "(fst entry, marked_answer (snd entry)) = (fst entry, Some ''a'')"
      by (simp add: marked_answer_def)
  qed
  also have "\<dots> = map (\<lambda>q. (q, Some ''a'')) (map fst ?db)"
    by (simp add: comp_def)
  finally show ?thesis
    by (simp only: detect_bubbles_keys)
qed

lemma only_first_matches:
  "filter (matches_key [1 \<mapsto> ''a'']) (map (\<lambda>q. (q, Some ''a'')) [1..<101]) = [(1, Some ''a'')]"
proof -
  have split: "[1..<101] = 1 # [2..<101]"
    by (simp add: upt_conv_Cons del: upt_rec_numeral)
  have "filter (matches_key [1 \<mapsto> ''a'']) (map (\<lambda>q. (q, Some ''a'')) [2..<101]) = []"
    by (auto simp: filter_empty_conv matches_key_def simp del: upt_rec_numeral)
  then show ?thesis
    unfolding split by (simp add: matches_key_def del: upt_rec_numeral)
qed

section \<open>Claims about the scorer\<close>

subsection \<open>The key scored against itself\<close>

text \<open>
  Claim C3. Let the answer key be a dictionary of \<open>N\<close> entries whose question numbers
  are exactly \<open>1..N\<close> and whose labels are among a, b, c, d. Scoring the key's own items
  as the answer map gives the score \<open>N\<close>, a verdict for every question of the key, and
  the status Correct in every verdict.
\<close>

theorem key_against_itself:
  fixes ks :: "(nat, string) dict"
  assumes "length ks = N"
    and "set (map fst ks) = {1..N}"
    and "set (map snd ks) \<subseteq> {''a'', ''b'', ''c'', ''d''}"
    and "evaluate_answers (map_of ks) (map (\<lambda>(q, answer). (q, Some answer)) ks) = (score, results)"
  shows "score = int N \<and> map fst results = map fst ks
         \<and> (\<forall>(q, v) \<in> set results. status v = ''Correct'')"
proof -
  let ?answers = "map (\<lambda>(q, answer). (q, Some answer)) ks"
  have "card (set (map fst ks)) = length (map fst ks)"
    using assms(1,2) by simp
  then have d: "distinct (map fst ks)"
    by (rule card_distinct)
  have fa: "map fst ?answers = map fst ks"
    by (induction ks) auto
  have da: "distinct (map fst ?answers)"
    using d by (simp only: fa)
  have all: "matches_key (map_of ks) item" if "item \<in> set ?answers" for item
  proof -
    from that obtain q a where "(q, a) \<in> set ks" and "item = (q, Some a)"
      by auto
    then show ?thesis
      using d by (simp add: matches_key_def)
  qed
  then have "\<forall>item \<in> set ?answers. matches_key (map_of ks) item"
    by blast
  then have "filter (matches_key (map_of ks)) ?answers = ?answers"
    by (rule filter_True)
  then have "length (filter (matches_key (map_of ks)) ?answers) = N"
    using assms(1) by simp
  with assms(4) da have s: "score = int N" and r: "results = map (verdict_of (map_of ks)) ?answers"
    by (simp_all add: evaluate_answers_closed)
  have "status (snd e) = ''Correct''" if "e \<in> set results" for e
  proof -
    from that have "e \<in> verdict_of (map_of ks) ` set ?answers"
      by (simp only: r set_map)
    then obtain item where "item \<in> set ?answers" and "e = verdict_of (map_of ks) item"
      by blast
    then show ?thesis
      using all by (simp add: status_verdict_of)
  qed
  then have "\<forall>(q, v) \<in> set results. status v = ''Correct''"
    by auto
  moreover have "map fst results = map fst ks"
    unfolding r using fa by (simp add: comp_def)
  ultimately show ?thesis
    using s by simp
qed

theorem key_against_itself_witness:
  "length [(1::nat, ''b''), (2, ''d'')] = 2
   \<and> set (map fst [(1::nat, ''b''), (2, ''d'')]) = {1..2}
   \<and> set (map snd [(1::nat, ''b''), (2, ''d'')]) \<subseteq> {''a'', ''b'', ''c'', ''d''}
   \<and> evaluate_answers (map_of [(1::nat, ''b''), (2, ''d'')])
        (map (\<lambda>(q, answer). (q, Some answer)) [(1::nat, ''b''), (2, ''d'')])
       = (2, [(1, \<lparr>status = ''Correct'', marked = ''b'', correct = Some ''b'', is_correct = True\<rparr>),
              (2, \<lparr>status = ''Correct'', marked = ''d'', correct = Some ''d'', is_correct = True\<rparr>)])
   \<and> (2::int) = int 2"
proof -
  have h1: "length [(1::nat, ''b''), (2, ''d'')] = 2" by simp
  have h2: "set (map fst [(1::nat, ''b''), (2, ''d'')]) = {1..2}" by auto
  have h3: "set (map snd [(1::nat, ''b''), (2, ''d'')]) \<subseteq> {''a'', ''b'', ''c'', ''d''}" by simp
  have h4: "evaluate_answers (map_of [(1::nat, ''b''), (2, ''d'')])
        (map (\<lambda>(q, answer). (q, Some answer)) [(1::nat, ''b''), (2, ''d'')])
       = (2, [(1, \<lparr>status = ''Correct'', marked = ''b'', correct = Some ''b'', is_correct = True\<rparr>),
              (2, \<lparr>status = ''Correct'', marked = ''d'', correct = Some ''d'', is_correct = True\<rparr>)])"
    by (simp add: evaluate_answers_def)
  show ?thesis
    using key_against_itself [OF h1 h2 h3 h4] h1 h2 h3 h4 by simp
qed

subsection \<open>Questions without an answer\<close>

text \<open>
  Claim C4. If the answer map holds \<open>None\<close> at question \<open>q\<close>, the verdict at \<open>q\<close> is
  Not Attempted whatever the answer key holds at \<open>q\<close>, and the score is the score of the
  answer map with its \<open>None\<close> entries left out: a question that was not attempted adds
  nothing to it.
\<close>

theorem no_answer_not_attempted:
  assumes "distinct (map fst answers)" and "(q, None) \<in> set answers"
  shows "map_of (snd (evaluate_answers answer_key answers)) q
           = Some \<lparr>status = ''Not Attempted'', marked = ''None'',
                   correct = answer_key q, is_correct = False\<rparr>
         \<and> fst (evaluate_answers answer_key answers)
           = fst (evaluate_answers answer_key (filter (\<lambda>item. snd item \<noteq> None) answers))"
proof -
  have df: "distinct (map fst (filter (\<lambda>item. snd item \<noteq> None) answers))"
    using assms(1) by (rule distinct_map_filter)
  have "map_of (map (verdict_of answer_key) answers) q = Some (snd (verdict_of answer_key (q, None)))"
    using assms by (rule map_of_verdicts)
  moreover have "fst (evaluate_answers answer_key answers)
           = fst (evaluate_answers answer_key (filter (\<lambda>item. snd item \<noteq> None) answers))"
    by (simp only: evaluate_answers_closed [OF assms(1)] evaluate_answers_closed [OF df]
          matches_key_filter fst_conv)
  ultimately show ?thesis
    by (simp add: evaluate_answers_closed [OF assms(1)] verdict_of_def)
qed

theorem no_answer_not_attempted_witness:
  "distinct (map fst [(1::nat, Some ''a''), (2, None)])
   \<and> (2, None) \<in> set [(1::nat, Some ''a''), (2, None)]
   \<and> map_of (snd (evaluate_answers [1 \<mapsto> ''a'', 2 \<mapsto> ''b''] [(1::nat, Some ''a''), (2, None)])) 2
       = Some \<lparr>status = ''Not Attempted'', marked = ''None'', correct = Some ''b'', is_correct = False\<rparr>
   \<and> fst (evaluate_answers [1 \<mapsto> ''a'', 2 \<mapsto> ''b''] [(1::nat, Some ''a''), (2, None)]) = 1"
proof -
  have d: "distinct (map fst [(1::nat, Some ''a''), (2, None)])" by simp
  have m: "(2, None) \<in> set [(1::nat, Some ''a''), (2, None)]" by simp
  show ?thesis
    using no_answer_not_attempted [OF d m, of "[1 \<mapsto> ''a'', 2 \<mapsto> ''b'']"] d m
    by (simp add: evaluate_answers_def)
qed

subsection \<open>The score counts the Correct verdicts\<close>

text \<open>
  Claim C5. The score returned by \<open>evaluate_answers\<close> is the number of verdicts whose
  status is Correct: each adds exactly one and no other verdict adds or takes anything.
  So the score lies between 0 and the number of questions of the answer map, each of which
  gets a verdict.
\<close>

theorem score_counts_correct:
  assumes "distinct (map fst answers)"
    and "evaluate_answers answer_key answers = (score, results)"
  shows "score = int (length (filter (\<lambda>e. status (snd e) = ''Correct'') results))
         \<and> 0 \<le> score \<and> score \<le> int (length answers)
         \<and> map fst results = map fst answers"
proof -
  from assms have s: "score = int (length (filter (matches_key answer_key) answers))"
    and r: "results = map (verdict_of answer_key) answers"
    by (simp_all add: evaluate_answers_closed)
  have "length (filter (matches_key answer_key) answers) \<le> length answers"
    by (rule length_filter_le)
  with s r show ?thesis
    by (simp add: status_verdict_of comp_def)
qed

theorem score_counts_correct_witness:
  "distinct (map fst [(1::nat, Some ''a''), (2, Some ''c''), (3, None)])
   \<and> evaluate_answers [1 \<mapsto> ''a'', 2 \<mapsto> ''b'', 3 \<mapsto> ''d''] [(1::nat, Some ''a''), (2, Some ''c''), (3, None)]
       = (1, [(1, \<lparr>status = ''Correct'', marked = ''a'', correct = Some ''a'', is_correct = True\<rparr>),
              (2, \<lparr>status = ''Incorrect'', marked = ''c'', correct = Some ''b'', is_correct = False\<rparr>),
              (3, \<lparr>status = ''Not Attempted'', marked = ''None'', correct = Some ''d'', is_correct = False\<rparr>)])
   \<and> (1::int) = int (length (filter (\<lambda>e. status (snd e) = ''Correct'')
        [(1::nat, \<lparr>status = ''Correct'', marked = ''a'', correct = Some ''a'', is_correct = True\<rparr>),
              (2, \<lparr>status = ''Incorrect'', marked = ''c'', correct = Some ''b'', is_correct = False\<rparr>),
              (3, \<lparr>status = ''Not Attempted'', marked = ''None'', correct = Some ''d'', is_correct = False\<rparr>)]))
   \<and> (0::int) \<le> 1 \<and> (1::int) \<le> int (length [(1::nat, Some ''a''), (2, Some ''c''), (3, None)])"
proof -
  have d: "distinct (map fst [(1::nat, Some ''a''), (2, Some ''c''), (3, None)])" by simp
  have e: "evaluate_answers [1 \<mapsto> ''a'', 2 \<mapsto> ''b'', 3 \<mapsto> ''d''] [(1::nat, Some ''a''), (2, Some ''c''), (3, None)]
       = (1, [(1, \<lparr>status = ''Correct'', marked = ''a'', correct = Some ''a'', is_correct = True\<rparr>),
              (2, \<lparr>status = ''Incorrect'', marked = ''c'', correct = Some ''b'', is_correct = False\<rparr>),
              (3, \<lparr>status = ''Not Attempted'', marked = ''None'', correct = Some ''d'', is_correct = False\<rparr>)])"
    by (simp add: evaluate_answers_def)
  show ?thesis using score_counts_correct [OF d e] d e by simp
qed

subsection \<open>The field \<open>is_correct\<close>\<close>

text \<open>
  Claim C10. In every verdict that \<open>evaluate_answers\<close> returns, the status is one of
  Correct, Incorrect and Not Attempted, and \<open>is_correct\<close> is true exactly when the status
  is Correct; it is false for Incorrect and for Not Attempted. The score is the number of
  verdicts whose \<open>is_correct\<close> is true.
\<close>

theorem is_correct_consistent:
  assumes "distinct (map fst answers)"
    and "evaluate_answers answer_key answers = (score, results)"
  shows "(\<forall>(q, v) \<in> set results.
            status v \<in> {''Correct'', ''Incorrect'', ''Not Attempted''}
            \<and> (is_correct v \<longleftrightarrow> status v = ''Correct'')
            \<and> (status v = ''Incorrect'' \<longrightarrow> \<not> is_correct v)
            \<and> (status v = ''Not Attempted'' \<longrightarrow> \<not> is_correct v))
         \<and> score = int (length (filter (\<lambda>e. is_correct (snd e)) results))"
proof -
  from assms have s: "score = int (length (filter (matches_key answer_key) answers))"
    and r: "results = map (verdict_of answer_key) answers"
    by (simp_all add: evaluate_answers_closed)
  have one: "status (snd e) \<in> {''Correct'', ''Incorrect'', ''Not Attempted''}
      \<and> (is_correct (snd e) \<longleftrightarrow> status (snd e) = ''Correct'')" if "e \<in> set results" for e
  proof -
    from that have "e \<in> verdict_of answer_key ` set answers"
      by (simp only: r set_map)
    then obtain item where "e = verdict_of answer_key item" by blast
    then show ?thesis
      using status_values [of answer_key item]
      by (simp only: status_verdict_of is_correct_verdict_of simp_thms)
  qed
  have "status v \<in> {''Correct'', ''Incorrect'', ''Not Attempted''}
            \<and> (is_correct v \<longleftrightarrow> status v = ''Correct'')
            \<and> (status v = ''Incorrect'' \<longrightarrow> \<not> is_correct v)
            \<and> (status v = ''Not Attempted'' \<longrightarrow> \<not> is_correct v)" if "(q, v) \<in> set results" for q v
    using one [OF that] by auto
  then have "\<forall>(q, v) \<in> set results.
            status v \<in> {''Correct'', ''Incorrect'', ''Not Attempted''}
            \<and> (is_correct v \<longleftrightarrow> status v = ''Correct'')
            \<and> (status v = ''Incorrect'' \<longrightarrow> \<not> is_correct v)
            \<and> (status v = ''Not Attempted'' \<longrightarrow> \<not> is_correct v)"
    by blast
  moreover have "score = int (length (filter (\<lambda>e. is_correct (snd e)) results))"
    using s r by (simp add: is_correct_verdict_of comp_def)
  ultimately show ?thesis by simp
qed

theorem is_correct_consistent_witness:
  "distinct (map fst [(1::nat, Some ''a''), (2, Some ''c''), (3, None)])
   \<and> evaluate_answers [1 \<mapsto> ''a'', 2 \<mapsto> ''b''] [(1::nat, Some ''a''), (2, Some ''c''), (3, None)]
       = (1, [(1, \<lparr>status = ''Correct'', marked = ''a'', correct = Some ''a'', is_correct = True\<rparr>),
              (2, \<lparr>status = ''Incorrect'', marked = ''c'', correct = Some ''b'', is_correct = False\<rparr>),
              (3, \<lparr>status = ''Not Attempted'', marked = ''None'', correct = None, is_correct = False\<rparr>)])
   \<and> (1::int) = int (length (filter (\<lambda>e. is_correct (snd e))
        [(1::nat, \<lparr>status = ''Correct'', marked = ''a'', correct = Some ''a'', is_correct = True\<rparr>),
              (2, \<lparr>status = ''Incorrect'', marked = ''c'', correct = Some ''b'', is_correct = False\<rparr>),
              (3, \<lparr>status = ''Not Attempted'', marked = ''None'', correct = None, is_correct = False\<rparr>)]))"
proof -
  have d: "distinct (map fst [(1::nat, Some ''a''), (2, Some ''c''), (3, None)])" by simp
  have e: "evaluate_answers [1 \<mapsto> ''a'', 2 \<mapsto> ''b''] [(1::nat, Some ''a''), (2, Some ''c''), (3, None)]
       = (1, [(1, \<lparr>status = ''Correct'', marked = ''a'', correct = Some ''a'', is_correct = True\<rparr>),
              (2, \<lparr>status = ''Incorrect'', marked = ''c'', correct = Some ''b'', is_correct = False\<rparr>),
              (3, \<lparr>status = ''Not Attempted'', marked = ''None'', correct = None, is_correct = False\<rparr>)])"
    by (simp add: evaluate_answers_def)
  show ?thesis using is_correct_consistent [OF d e] d e by simp
qed

section \<open>Claims about the mark extractor\<close>

subsection \<open>The threshold\<close>

text \<open>
  Claim C1. Let \<open>bubbles\<close> be a dictionary of intensity maps and \<open>options\<close> the
  non-empty map of question \<open>q_num\<close>. \<open>extract_answers\<close> returns an answer map, and the
  answer stored for \<open>q_num\<close> obeys a strict comparison with 50: when the largest ink
  score of \<open>options\<close> is exactly 50 the answer is \<open>None\<close>; when it is 51 the answer is a
  label whose score is 51; in general a label is reported exactly when the largest score
  is greater than 50.
\<close>

theorem threshold_strict:
  assumes "distinct (map fst bubbles)"
    and "\<forall>entry \<in> set bubbles. distinct (map fst (snd entry))"
    and "(q_num, options) \<in> set bubbles"
    and "options \<noteq> []"
  shows "\<exists>answers. extract_answers bubbles = Inr answers
           \<and> extract_answer options = Inr (marked_answer options)
           \<and> map_of answers q_num = Some (marked_answer options)
           \<and> (Max (snd ` set options) = 50 \<longrightarrow> marked_answer options = None)
           \<and> (Max (snd ` set options) = 51 \<longrightarrow>
                (\<exists>label. marked_answer options = Some label \<and> map_of options label = Some 51))
           \<and> ((\<exists>label. marked_answer options = Some label) \<longleftrightarrow> Max (snd ` set options) > 50)"
proof -
  let ?M = "Max (snd ` set options)"
  from assms(2,3) have d: "distinct (map fst options)" by auto
  from assms(4) obtain item items where o: "options = item # items"
    by (cases options) auto
  let ?best = "max_by_value item items"
  have M: "snd ?best = ?M"
    unfolding o by (rule max_by_value_Max)
  have "(fst ?best, snd ?best) \<in> set options"
    using max_by_value_in [of item items] o by simp
  with d have look: "map_of options (fst ?best) = Some ?M"
    unfolding M [symmetric] by (rule map_of_is_SomeI)
  have ma: "marked_answer options = (if ?M > 50 then Some (fst ?best) else None)"
    unfolding M [symmetric] by (simp add: marked_answer_def o Let_def)
  have "extract_answers bubbles
      = Inr (map (\<lambda>entry. (fst entry, marked_answer (snd entry))) bubbles)"
    using assms(1,2) by (rule extract_answers_closed)
  moreover have "map_of (map (\<lambda>entry. (fst entry, marked_answer (snd entry))) bubbles) q_num
      = Some (marked_answer options)"
    using assms(1,3) by (rule map_of_marked)
  moreover have "extract_answer options = Inr (marked_answer options)"
    using d by (rule extract_answer_marked)
  moreover have "?M = 50 \<longrightarrow> marked_answer options = None"
    by (simp add: ma)
  moreover have "?M = 51 \<longrightarrow>
      (\<exists>label. marked_answer options = Some label \<and> map_of options label = Some 51)"
    using look by (simp add: ma)
  moreover have "(\<exists>label. marked_answer options = Some label) \<longleftrightarrow> ?M > 50"
    by (simp add: ma)
  ultimately show ?thesis by blast
qed

theorem threshold_strict_witness:
  "distinct (map fst [(1::nat, [(''a'', 50), (''b'', 10)]), (2, [(''a'', 3), (''b'', 51), (''c'', 51)])])
   \<and> Max (snd ` set [(''a'', 50::rat), (''b'', 10)]) = 50
   \<and> Max (snd ` set [(''a'', 3::rat), (''b'', 51), (''c'', 51)]) = 51
   \<and> extract_answers [(1::nat, [(''a'', 50), (''b'', 10)]), (2, [(''a'', 3), (''b'', 51), (''c'', 51)])]
       = Inr [(1, None), (2, Some ''b'')]
   \<and> marked_answer [(''a'', 50), (''b'', 10)] = None
   \<and> marked_answer [(''a'', 3), (''b'', 51), (''c'', 51)] = Some ''b''"
proof -
  let ?bubbles = "[(1::nat, [(''a'', 50::rat), (''b'', 10)]), (2, [(''a'', 3), (''b'', 51), (''c'', 51)])]"
  have h1: "distinct (map fst ?bubbles)" by simp
  have h2: "\<forall>entry \<in> set ?bubbles. distinct (map fst (snd entry))" by simp
  have m1: "(1, [(''a'', 50), (''b'', 10)]) \<in> set ?bubbles" by simp
  have m2: "(2, [(''a'', 3), (''b'', 51), (''c'', 51)]) \<in> set ?bubbles" by simp
  have n1: "[(''a'', 50::rat), (''b'', 10)] \<noteq> []" by simp
  have n2: "[(''a'', 3::rat), (''b'', 51), (''c'', 51)] \<noteq> []" by simp
  have e: "extract_answers ?bubbles = Inr [(1, None), (2, Some ''b'')]"
    by (simp add: extract_answers_def extract_answer_def)
  show ?thesis
    using threshold_strict [OF h1 h2 m1 n1] threshold_strict [OF h1 h2 m2 n2] h1 e
    by (simp add: marked_answer_def)
qed

subsection \<open>Ties\<close>

text \<open>
  Claim C2, as amended. For every intensity map, \<open>extract_answer\<close> raises no error.
  For a map that is not empty (a dictionary, so its labels are distinct): when the
  largest score is greater than 50 the answer is the label of the first item,
  in the order in which the map lists its items, whose score is the largest one: the
  first of the tied labels when there is a tie. When the largest score is at most 50
  the answer is \<open>None\<close>, tie or not. For a map that lists the labels in the order
  a, b, c, d, whatever its scores, the first tied label is therefore the first in that
  order; every map that \<open>detect_bubbles\<close> builds lists them so, and \<open>extract_answers\<close>
  stores that answer for its question.
\<close>

theorem tie_first_label_above_threshold:
  "(options \<noteq> [] \<and> distinct (map fst options) \<longrightarrow>
      extract_answer options
        = Inr (if Max (snd ` set options) > 50
               then map_option fst (find (\<lambda>item. snd item = Max (snd ` set options)) options)
               else None))
   \<and> (\<exists>answer. extract_answer options = Inr answer)
   \<and> extract_answer [(''a'', sa), (''b'', sb), (''c'', sc), (''d'', sd)]
       = Inr (if Max {sa, sb, sc, sd} > 50
              then Some (if sa = Max {sa, sb, sc, sd} then ''a''
                         else if sb = Max {sa, sb, sc, sd} then ''b''
                         else if sc = Max {sa, sb, sc, sd} then ''c'' else ''d'')
              else None)
   \<and> (\<forall>(q_num, cell) \<in> set (detect_bubbles thresh).
         \<exists>ta tb tc td answers.
           cell = [(''a'', ta), (''b'', tb), (''c'', tc), (''d'', td)]
           \<and> extract_answers (detect_bubbles thresh) = Inr answers
           \<and> map_of answers q_num
               = Some (if Max {ta, tb, tc, td} > 50
                       then Some (if ta = Max {ta, tb, tc, td} then ''a''
                                  else if tb = Max {ta, tb, tc, td} then ''b''
                                  else if tc = Max {ta, tb, tc, td} then ''c'' else ''d'')
                       else None))"
proof -
  have general: "extract_answer options
        = Inr (if Max (snd ` set options) > 50
               then map_option fst (find (\<lambda>item. snd item = Max (snd ` set options)) options)
               else None)"
    if ne: "options \<noteq> []" and d: "distinct (map fst options)"
    unfolding extract_answer_marked [OF d] marked_answer_Max [OF ne] ..
  have four: "extract_answer [(''a'', sa), (''b'', sb), (''c'', sc), (''d'', sd)]
       = Inr (if Max {sa, sb, sc, sd} > 50
              then Some (if sa = Max {sa, sb, sc, sd} then ''a''
                         else if sb = Max {sa, sb, sc, sd} then ''b''
                         else if sc = Max {sa, sb, sc, sd} then ''c'' else ''d'')
              else None)" for sa sb sc sd
  proof -
    have "distinct (map fst [(''a'', sa), (''b'', sb), (''c'', sc), (''d'', sd)])"
      by simp
    then have "extract_answer [(''a'', sa), (''b'', sb), (''c'', sc), (''d'', sd)]
        = Inr (marked_answer [(''a'', sa), (''b'', sb), (''c'', sc), (''d'', sd)])"
      by (rule extract_answer_marked)
    then show ?thesis
      by (simp only: marked_answer_four)
  qed
  have cells: "\<exists>ta tb tc td answers.
           cell = [(''a'', ta), (''b'', tb), (''c'', tc), (''d'', td)]
           \<and> extract_answers (detect_bubbles thresh) = Inr answers
           \<and> map_of answers q_num
               = Some (if Max {ta, tb, tc, td} > 50
                       then Some (if ta = Max {ta, tb, tc, td} then ''a''
                                  else if tb = Max {ta, tb, tc, td} then ''b''
                                  else if tc = Max {ta, tb, tc, td} then ''c'' else ''d'')
                       else None)"
    if m: "(q_num, cell) \<in> set (detect_bubbles thresh)" for q_num cell
  proof -
    from detect_bubbles_options [OF m] obtain col row where
      "cell = question_options thresh (shape_width thresh div 5) (shape_height thresh div 20) col row"
      by blast
    then obtain ta tb tc td where o: "cell = [(''a'', ta), (''b'', tb), (''c'', tc), (''d'', td)]"
      unfolding question_options_eq by blast
    have "map_of (map (\<lambda>entry. (fst entry, marked_answer (snd entry))) (detect_bubbles thresh)) q_num
        = Some (marked_answer cell)"
      using detect_bubbles_distinct m by (rule map_of_marked)
    then have "map_of (map (\<lambda>entry. (fst entry, marked_answer (snd entry))) (detect_bubbles thresh)) q_num
        = Some (if Max {ta, tb, tc, td} > 50
                then Some (if ta = Max {ta, tb, tc, td} then ''a''
                           else if tb = Max {ta, tb, tc, td} then ''b''
                           else if tc = Max {ta, tb, tc, td} then ''c'' else ''d'')
                else None)"
      by (simp only: o marked_answer_four)
    with o extract_detect_closed [of thresh] show ?thesis
      by blast
  qed
  from general extract_answer_total [of options] four cells show ?thesis
    by blast
qed

theorem tie_first_label_above_threshold_witness:
  "[(''d'', 60 :: rat), (''a'', 60)] \<noteq> []
   \<and> distinct (map fst [(''d'', 60 :: rat), (''a'', 60)])
   \<and> extract_answer [(''d'', 60), (''a'', 60)] = Inr (Some ''d'')
   \<and> extract_answer [(''a'', 7), (''b'', 60), (''c'', 60), (''d'', 3)] = Inr (Some ''b'')
   \<and> (23, [(''a'', 51), (''b'', 51), (''c'', 51), (''d'', 51)])
        \<in> set (detect_bubbles (replicate 80 (replicate 255 255)))
   \<and> (\<exists>answers. extract_answers (detect_bubbles (replicate 80 (replicate 255 255))) = Inr answers
         \<and> map_of answers 23 = Some (Some ''a''))"
proof -
  let ?M = "replicate 80 (replicate 255 (255 :: 8 word))"
  have n: "detect_bubbles ?M ! 22 = (23, [(''a'', 51), (''b'', 51), (''c'', 51), (''d'', 51)])"
    using detect_bubbles_nth [of 1 2 ?M]
    by (simp add: shape_width_replicate shape_height_replicate question_options_eq
          option_region_uniform ink_score_single)
  have "length (detect_bubbles ?M) = 100"
    using arg_cong [OF detect_bubbles_keys [of ?M], of length] by simp
  then have "detect_bubbles ?M ! 22 \<in> set (detect_bubbles ?M)"
    by (intro nth_mem) simp
  then have m: "(23, [(''a'', 51), (''b'', 51), (''c'', 51), (''d'', 51)]) \<in> set (detect_bubbles ?M)"
    by (simp only: n)
  note t = tie_first_label_above_threshold [of "[(''d'', 60), (''a'', 60)]" 7 60 60 3 ?M]
  from t have "extract_answer [(''d'', 60), (''a'', 60)] = Inr (Some ''d'')"
    by simp
  moreover from t have "extract_answer [(''a'', 7), (''b'', 60), (''c'', 60), (''d'', 3)] = Inr (Some ''b'')"
    by simp
  moreover from t m have "\<exists>answers. extract_answers (detect_bubbles ?M) = Inr answers
         \<and> map_of answers 23 = Some (Some ''a'')"
    by fastforce
  ultimately show ?thesis
    using m by simp
qed

text \<open>
  The claim as stated fails in two ways. When the tied score is not above the threshold
  the answer is \<open>None\<close>, not the label a: on a blank question all four labels tie at 0,
  and two labels tied at 50 are still not greater than 50. And the order that decides a
  tie is the order of the map's items, not the order of the alphabet: a map that lists d
  before a, both at 60, gives d.
\<close>

theorem tie_below_threshold_counterexample:
  "extract_answer [(''a'', 0), (''b'', 0), (''c'', 0), (''d'', 0)] = Inr None
   \<and> extract_answer [(''a'', 0), (''b'', 0), (''c'', 0), (''d'', 0)] \<noteq> Inr (Some ''a'')
   \<and> extract_answer [(''a'', 50), (''b'', 50), (''c'', 7), (''d'', 0)] = Inr None
   \<and> detect_bubbles (replicate 80 (replicate 255 0)) ! 0
       = (1, [(''a'', 0), (''b'', 0), (''c'', 0), (''d'', 0)])
   \<and> extract_answer [(''d'', 60), (''a'', 60)] = Inr (Some ''d'')
   \<and> extract_answer [(''d'', 60), (''a'', 60)] \<noteq> Inr (Some ''a'')"
proof -
  have "detect_bubbles (replicate 80 (replicate 255 0)) ! 0
       = (1, [(''a'', 0), (''b'', 0), (''c'', 0), (''d'', 0)])"
    using detect_bubbles_nth [of 0 0 "replicate 80 (replicate 255 0)"]
    by (simp add: shape_width_replicate shape_height_replicate question_options_eq
          option_region_uniform ink_score_single)
  then show ?thesis
    by (simp add: extract_answer_def)
qed

section \<open>Claims about the grid mapper\<close>

subsection \<open>The order of the questions\<close>

text \<open>
  Claim C6. For every sheet, \<open>detect_bubbles\<close> with its 5 columns and 20 rows lists the
  questions column by column: all rows of column 0, then those of column 1, and so on,
  the cell of column \<open>col\<close> and row \<open>row\<close> (both counted from 0) under the question
  number \<open>col * 20 + row + 1\<close>. Its keys are 1, 2, ..., 100 in this order, and so are the
  keys of the answer map that \<open>extract_answers\<close> makes of it.
\<close>

theorem grid_enumeration:
  "detect_bubbles thresh
     = concat (map (\<lambda>col. map (\<lambda>row. (col * 20 + row + 1,
          question_options thresh (shape_width thresh div 5) (shape_height thresh div 20) col row))
          [0..<20]) [0..<5])
   \<and> map fst (detect_bubbles thresh) = [1..<101]
   \<and> (\<forall>col < 5. \<forall>row < 20.
         fst (detect_bubbles thresh ! (col * 20 + row)) = col * 20 + row + 1
         \<and> map_of (detect_bubbles thresh) (col * 20 + row + 1)
             = Some (question_options thresh (shape_width thresh div 5)
                       (shape_height thresh div 20) col row))
   \<and> (\<exists>answers. extract_answers (detect_bubbles thresh) = Inr answers
         \<and> map fst answers = [1..<101])"
proof -
  have closed: "detect_bubbles thresh
     = concat (map (\<lambda>col. map (\<lambda>row. (col * 20 + row + 1,
          question_options thresh (shape_width thresh div 5) (shape_height thresh div 20) col row))
          [0..<20]) [0..<5])"
    unfolding detect_bubbles_closed grid_column_def ..
  have cell: "fst (detect_bubbles thresh ! (col * 20 + row)) = col * 20 + row + 1
         \<and> map_of (detect_bubbles thresh) (col * 20 + row + 1)
             = Some (question_options thresh (shape_width thresh div 5)
                       (shape_height thresh div 20) col row)"
    if "col < 5" and "row < 20" for col row
  proof -
    let ?e = "(col * 20 + row + 1, question_options thresh (shape_width thresh div 5)
                       (shape_height thresh div 20) col row)"
    have n: "detect_bubbles thresh ! (col * 20 + row) = ?e"
      using that by (rule detect_bubbles_nth)
    have "length (detect_bubbles thresh) = 100"
      using arg_cong [OF detect_bubbles_keys [of thresh], of length] by simp
    moreover have "col * 20 + row < 100"
      using that by simp
    ultimately have "detect_bubbles thresh ! (col * 20 + row) \<in> set (detect_bubbles thresh)"
      by (intro nth_mem) simp
    then have "?e \<in> set (detect_bubbles thresh)"
      by (simp only: n)
    with detect_bubbles_distinct have "map_of (detect_bubbles thresh) (col * 20 + row + 1)
        = Some (question_options thresh (shape_width thresh div 5)
                       (shape_height thresh div 20) col row)"
      by (rule map_of_is_SomeI)
    with n show ?thesis by simp
  qed
  have "map fst (map (\<lambda>entry. (fst entry, marked_answer (snd entry))) (detect_bubbles thresh))
      = [1..<101]"
    by (simp add: comp_def detect_bubbles_keys)
  with extract_detect_closed [of thresh]
  have "\<exists>answers. extract_answers (detect_bubbles thresh) = Inr answers
         \<and> map fst answers = [1..<101]"
    by blast
  with closed cell detect_bubbles_keys [of thresh] show ?thesis
    by blast
qed

theorem grid_enumeration_witness:
  "(1::nat) < 5 \<and> (2::nat) < 20
   \<and> fst (detect_bubbles (replicate 80 (replicate 255 255)) ! 22) = 23
   \<and> map_of (detect_bubbles (replicate 80 (replicate 255 255))) 23
       = Some [(''a'', 51), (''b'', 51), (''c'', 51), (''d'', 51)]
   \<and> map fst (detect_bubbles (replicate 80 (replicate 255 255))) = [1..<101]"
proof -
  have q: "question_options (replicate 80 (replicate 255 255)) 51 4 (Suc 0) 2
      = [(''a'', 51), (''b'', 51), (''c'', 51), (''d'', 51)]"
    by (simp add: question_options_eq option_region_uniform ink_score_single)
  from grid_enumeration [of "replicate 80 (replicate 255 255)"]
  have "fst (detect_bubbles (replicate 80 (replicate 255 255)) ! (1 * 20 + 2)) = 1 * 20 + 2 + 1
     \<and> map_of (detect_bubbles (replicate 80 (replicate 255 255))) (1 * 20 + 2 + 1)
         = Some (question_options (replicate 80 (replicate 255 255))
              (shape_width (replicate 80 (replicate 255 255)) div 5)
              (shape_height (replicate 80 (replicate 255 255)) div 20) 1 2)"
    by (elim conjE allE [of _ 1] allE [of _ 2] impE) simp_all
  moreover from grid_enumeration [of "replicate 80 (replicate 255 255)"]
  have "map fst (detect_bubbles (replicate 80 (replicate 255 255))) = [1..<101]"
    by (elim conjE)
  ultimately show ?thesis
    by (simp add: shape_width_replicate shape_height_replicate q)
qed

subsection \<open>The ink score of a binary sheet\<close>

text \<open>
  Claim C9. On a sheet whose samples are all 0 or 255, every option region has an ink
  score, the sum of its samples divided by 255, equal to the number of its samples that
  are 255; so the score is a natural number, and not negative.
\<close>

theorem ink_score_counts_foreground:
  assumes "set (concat thresh) \<subseteq> {0, 255}"
    and "option_region = option_region_of (bubble_region_of thresh col_width row_height col row)
                           option_height opt_idx"
  shows "ink_score option_region = of_nat (np_sum option_region) / 255
         \<and> ink_score option_region = of_nat (count_foreground option_region)
         \<and> 0 \<le> ink_score option_region
         \<and> ink_score option_region \<in> \<nat>"
proof -
  from assms(1) have "\<forall>r \<in> set thresh. \<forall>p \<in> set r. p = 0 \<or> p = 255"
    by auto
  then have "\<forall>r \<in> set option_region. \<forall>p \<in> set r. p = 0 \<or> p = 255"
    unfolding assms(2) by (rule binary_option_region)
  then have "ink_score option_region = of_nat (count_foreground option_region)"
    by (rule ink_score_binary)
  then show ?thesis
    by (simp add: ink_score_def)
qed

theorem ink_score_counts_foreground_witness:
  "set (concat [[255, 0, 255], [0, 0, 255], [255, 255, 255 :: 8 word]]) \<subseteq> {0, 255}
   \<and> option_region_of (bubble_region_of [[255, 0, 255], [0, 0, 255], [255, 255, 255]] 2 2 0 0) 2 0
       = [[255, 0], [0, 0]]
   \<and> ink_score [[255, 0], [0, 0]] = 1
   \<and> count_foreground [[255, 0], [0, 0]] = 1"
proof -
  have b: "set (concat [[255, 0, 255], [0, 0, 255], [255, 255, 255 :: 8 word]]) \<subseteq> {0, 255}"
    by simp
  have r: "option_region_of (bubble_region_of [[255, 0, 255], [0, 0, 255], [255, 255, 255]] 2 2 0 0) 2 0
      = [[255, 0], [0, 0]]"
    by (simp add: option_region_of_def bubble_region_of_def slice2_def slice_def slice_rows_def)
  from ink_score_counts_foreground [OF b r [symmetric]] b r show ?thesis
    by (simp add: count_foreground_def)
qed

subsection \<open>The size of the slices\<close>

text \<open>
  Claim C7, as amended. On a sheet of width \<open>w\<close> and height \<open>h\<close> every cell is exactly
  \<open>w div 5\<close> samples wide and \<open>h div 20\<close> samples high, and every band is exactly
  \<open>(h div 20) div 4\<close> samples high: the last column, row and band are as large as the
  others. The sample at row \<open>i\<close> and column \<open>j\<close> of a band is the sample of the sheet at
  row \<open>row * row_height + opt_idx * option_height + i\<close> and column
  \<open>col * col_width + j\<close>, which lies left of the last \<open>w mod 5\<close> columns of the sheet,
  above its last \<open>h mod 20\<close> rows and above the last \<open>row_height mod 4\<close> rows of its
  cell. So the remainder of each truncated division, at most 4 columns, 19 rows and 3 rows
  of a cell, belongs to no cell and to no band.
\<close>

theorem slices_equal_remainder_excluded:
  assumes "rectangular thresh" and "col < 5" and "row < 20" and "opt_idx < 4"
    and "col_width = shape_width thresh div 5"
    and "row_height = shape_height thresh div 20"
    and "option_height = row_height div 4"
    and "bubble_region = bubble_region_of thresh col_width row_height col row"
    and "option_region = option_region_of bubble_region option_height opt_idx"
  shows "length bubble_region = row_height
         \<and> (\<forall>r \<in> set bubble_region. length r = col_width)
         \<and> length option_region = option_height
         \<and> (\<forall>r \<in> set option_region. length r = col_width)
         \<and> (\<forall>i < option_height. \<forall>j < col_width.
               option_region ! i ! j
                 = thresh ! (row * row_height + opt_idx * option_height + i) ! (col * col_width + j)
               \<and> col * col_width + j < shape_width thresh - shape_width thresh mod 5
               \<and> row * row_height + opt_idx * option_height + i
                   < shape_height thresh - shape_height thresh mod 20
               \<and> opt_idx * option_height + i < row_height - row_height mod 4)
         \<and> shape_width thresh mod 5 \<le> 4
         \<and> shape_height thresh mod 20 \<le> 19
         \<and> row_height mod 4 \<le> 3"
proof -
  let ?w = "shape_width thresh" and ?h = "shape_height thresh"
  let ?xs = "col * col_width" and ?ys = "row * row_height" and ?bs = "opt_idx * option_height"
  have xe: "?xs + col_width \<le> ?w"
    unfolding assms(5) using assms(2) by (rule slice_bound)
  have ye: "?ys + row_height \<le> length thresh"
    unfolding assms(6) shape_height_def using assms(3) by (rule slice_bound)
  have be: "?bs + option_height \<le> row_height"
    unfolding assms(7) using assms(4) by (rule slice_bound)
  have br: "bubble_region = map (slice ?xs (?xs + col_width)) (slice ?ys (?ys + row_height) thresh)"
    by (simp add: assms(8) bubble_region_of_def slice2_def Let_def)
  have orr: "option_region = slice ?bs (?bs + option_height) bubble_region"
    by (simp add: assms(9) option_region_of_def slice_rows_def Let_def)
  have len_br: "length bubble_region = row_height"
    using ye by (simp add: br length_slice)
  have row_br: "length r = col_width" if "r \<in> set bubble_region" for r
  proof -
    from that obtain r0 where "r0 \<in> set thresh" and r: "r = slice ?xs (?xs + col_width) r0"
      unfolding br using set_slice [of ?ys "?ys + row_height" thresh] by auto
    then have "length r0 = ?w"
      using assms(1) by (simp add: rectangular_row)
    with xe show ?thesis by (simp add: r length_slice)
  qed
  have len_or: "length option_region = option_height"
    using be by (simp add: orr length_slice len_br)
  have row_or: "length r = col_width" if "r \<in> set option_region" for r
    using that set_slice [of ?bs "?bs + option_height" bubble_region] row_br
    unfolding orr by blast
  have px: "option_region ! i ! j = thresh ! (?ys + ?bs + i) ! (?xs + j)
               \<and> ?xs + j < ?w - ?w mod 5
               \<and> ?ys + ?bs + i < ?h - ?h mod 20
               \<and> ?bs + i < row_height - row_height mod 4"
    if i: "i < option_height" and j: "j < col_width" for i j
  proof -
    have bi: "?bs + i < row_height" using i be by simp
    have yi: "?ys + (?bs + i) < length thresh" using bi ye by simp
    have xj: "?xs + j < ?w" using j xe by simp
    have "option_region ! i = bubble_region ! (?bs + i)"
      unfolding orr using i be by (intro nth_slice) (simp add: len_br)
    also have "\<dots> = slice ?xs (?xs + col_width) (slice ?ys (?ys + row_height) thresh ! (?bs + i))"
      unfolding br using bi ye by (intro nth_map) (simp add: length_slice)
    also have "slice ?ys (?ys + row_height) thresh ! (?bs + i) = thresh ! (?ys + (?bs + i))"
      using bi ye by (intro nth_slice) simp
    finally have oi: "option_region ! i = slice ?xs (?xs + col_width) (thresh ! (?ys + (?bs + i)))" .
    have "thresh ! (?ys + (?bs + i)) \<in> set thresh"
      using yi by (rule nth_mem)
    then have "length (thresh ! (?ys + (?bs + i))) = ?w"
      using assms(1) by (simp add: rectangular_row)
    then have "option_region ! i ! j = thresh ! (?ys + (?bs + i)) ! (?xs + j)"
      unfolding oi using j xe by (intro nth_slice) simp
    moreover have "?xs + j < ?w - ?w mod 5"
    proof -
      have "col * col_width + j < 5 * col_width"
        using assms(2) j by (rule offset_bound)
      then show ?thesis
        unfolding remainder_eq assms(5) [symmetric] by (simp add: mult.commute)
    qed
    moreover have "?ys + ?bs + i < ?h - ?h mod 20"
    proof -
      have "row * row_height + (?bs + i) < 20 * row_height"
        using assms(3) bi by (rule offset_bound)
      then show ?thesis
        unfolding remainder_eq assms(6) [symmetric] by (simp add: mult.commute add.assoc)
    qed
    moreover have "?bs + i < row_height - row_height mod 4"
    proof -
      have "opt_idx * option_height + i < 4 * option_height"
        using assms(4) i by (rule offset_bound)
      then show ?thesis
        unfolding remainder_eq assms(7) [symmetric] by (simp add: mult.commute)
    qed
    ultimately show ?thesis by (simp add: add.assoc)
  qed
  have "?w mod 5 \<le> 4" and "?h mod 20 \<le> 19" and "row_height mod 4 \<le> 3"
    by simp_all
  with len_br row_br len_or row_or px show ?thesis
    by blast
qed

theorem slices_equal_remainder_excluded_witness:
  "rectangular (replicate 80 (replicate 5 0 @ replicate 4 255))
   \<and> (4::nat) < 5 \<and> (0::nat) < 20 \<and> (3::nat) < 4
   \<and> length (bubble_region_of (replicate 80 (replicate 5 0 @ replicate 4 255)) 1 4 4 0) = 4
   \<and> length (option_region_of
        (bubble_region_of (replicate 80 (replicate 5 0 @ replicate 4 255)) 1 4 4 0) 1 3) = 1
   \<and> shape_width (replicate 80 (replicate 5 0 @ replicate 4 255)) mod 5 = 4"
proof -
  let ?M = "replicate 80 (replicate 5 0 @ replicate 4 (255 :: 8 word))"
  have r: "rectangular ?M"
    by (simp add: rectangular_def list_all_iff shape_width_replicate)
  have w: "(1::nat) = shape_width ?M div 5"
    by (simp add: shape_width_replicate)
  have h: "(4::nat) = shape_height ?M div 20"
    by (simp add: shape_height_replicate)
  have o: "(1::nat) = 4 div 4" by simp
  from slices_equal_remainder_excluded [OF r _ _ _ w h o refl refl, of 4 0 3] r
  show ?thesis
    by (simp add: shape_width_replicate)
qed

text \<open>
  The claim as stated fails on a sheet 9 samples wide and 80 high whose first five
  columns are blank and whose last four are ink. The column width is 1; the cell of the
  last column is one sample wide like the cell of the first one and holds no ink, and no
  question sees any of the 320 foreground samples of the sheet: the last slice does not
  take in the remainder.
\<close>

theorem last_slice_absorbs_counterexample:
  "shape_width (replicate 80 (replicate 5 0 @ replicate 4 255)) = 9
   \<and> shape_height (replicate 80 (replicate 5 0 @ replicate 4 255)) = 80
   \<and> bubble_region_of (replicate 80 (replicate 5 0 @ replicate 4 255)) (9 div 5) (80 div 20) 0 0
       = [[0], [0], [0], [0]]
   \<and> bubble_region_of (replicate 80 (replicate 5 0 @ replicate 4 255)) (9 div 5) (80 div 20) 4 0
       = [[0], [0], [0], [0]]
   \<and> np_sum (replicate 80 (replicate 5 0 @ replicate 4 255)) = 81600
   \<and> map snd (detect_bubbles (replicate 80 (replicate 5 0 @ replicate 4 255)))
       = replicate 100 [(''a'', 0), (''b'', 0), (''c'', 0), (''d'', 0)]"
proof -
  have "replicate 4 [0 :: 8 word] = [[0], [0], [0], [0]]"
    by (simp add: numeral_eq_Suc)
  then show ?thesis
    by (simp add: shape_width_replicate shape_height_replicate margin_sheet
          bubble_region_of_def slice2_def slice_def np_sum_def sum_list_replicate)
qed

section \<open>Claims about the pipeline\<close>

subsection \<open>An answer key with missing entries\<close>

text \<open>
  Claim C8, as amended. \<open>process_omr_sheet\<close> has no validation pass and raises no error
  for an answer key that lacks entries: for a loaded sheet it always returns a result.
  A question that the grid enumerates and the key does not hold is looked up as \<open>None\<close>;
  its verdict has no correct label, is Incorrect when a bubble was marked and Not
  Attempted otherwise, and the total score is that of the other questions alone.
\<close>

theorem missing_key_entry_scored:
  assumes "answer_key q_num = None"
    and "(q_num, options) \<in> set (detect_bubbles thresh)"
  shows "\<exists>result verdict.
           process_omr_sheet answer_key (Some thresh) = Inr result
           \<and> map_of (extracted_answers result) q_num = Some (marked_answer options)
           \<and> map_of (detailed_results result) q_num = Some verdict
           \<and> correct verdict = None
           \<and> is_correct verdict = False
           \<and> status verdict
               = (if marked_answer options = None then ''Not Attempted'' else ''Incorrect'')
           \<and> total_score result
               = fst (evaluate_answers answer_key
                       (filter (\<lambda>item. fst item \<noteq> q_num) (extracted_answers result)))"
proof -
  let ?answers = "map (\<lambda>entry. (fst entry, marked_answer (snd entry))) (detect_bubbles thresh)"
  let ?result = "\<lparr>total_score = int (length (filter (matches_key answer_key) ?answers)),
            detailed_results = map (verdict_of answer_key) ?answers,
            processed_image = thresh,
            extracted_answers = ?answers\<rparr>"
  let ?verdict = "snd (verdict_of answer_key (q_num, marked_answer options))"
  have d: "distinct (map fst ?answers)"
    using detect_bubbles_distinct [of thresh] by (simp add: comp_def)
  have look: "map_of ?answers q_num = Some (marked_answer options)"
    using detect_bubbles_distinct assms(2) by (rule map_of_marked)
  then have mem: "(q_num, marked_answer options) \<in> set ?answers"
    by (rule map_of_SomeD)
  have v: "map_of (map (verdict_of answer_key) ?answers) q_num = Some ?verdict"
    using d mem by (rule map_of_verdicts)
  have df: "distinct (map fst (filter (\<lambda>item. fst item \<noteq> q_num) ?answers))"
    using d by (rule distinct_map_filter)
  have score: "int (length (filter (matches_key answer_key) ?answers))
      = fst (evaluate_answers answer_key (filter (\<lambda>item. fst item \<noteq> q_num) ?answers))"
    by (simp only: evaluate_answers_closed [OF df] fst_conv filter_drop_unmatched [of answer_key q_num, OF assms(1)])
  have "correct ?verdict = None" and "is_correct ?verdict = False"
    and "status ?verdict = (if marked_answer options = None then ''Not Attempted'' else ''Incorrect'')"
    using assms(1) by (auto simp: verdict_of_def split: option.splits)
  with look v score have "process_omr_sheet answer_key (Some thresh) = Inr ?result
           \<and> map_of (extracted_answers ?result) q_num = Some (marked_answer options)
           \<and> map_of (detailed_results ?result) q_num = Some ?verdict
           \<and> correct ?verdict = None
           \<and> is_correct ?verdict = False
           \<and> status ?verdict
               = (if marked_answer options = None then ''Not Attempted'' else ''Incorrect'')
           \<and> total_score ?result
               = fst (evaluate_answers answer_key
                       (filter (\<lambda>item. fst item \<noteq> q_num) (extracted_answers ?result)))"
    by (simp add: process_closed)
  then show ?thesis by blast
qed

theorem missing_key_entry_scored_witness:
  "[1 \<mapsto> ''a''] (23::nat) = None
   \<and> (23, [(''a'', 51), (''b'', 51), (''c'', 51), (''d'', 51)])
        \<in> set (detect_bubbles (replicate 80 (replicate 255 255)))
   \<and> (\<exists>result. process_omr_sheet [1 \<mapsto> ''a''] (Some (replicate 80 (replicate 255 255))) = Inr result
         \<and> map_of (extracted_answers result) 23 = Some (Some ''a'')
         \<and> (\<exists>verdict. map_of (detailed_results result) 23 = Some verdict
               \<and> correct verdict = None \<and> is_correct verdict = False
               \<and> status verdict = ''Incorrect''))"
proof -
  let ?M = "replicate 80 (replicate 255 (255 :: 8 word))"
  have k: "[1 \<mapsto> ''a''] (23::nat) = None" by simp
  have n: "detect_bubbles ?M ! 22 = (23, [(''a'', 51), (''b'', 51), (''c'', 51), (''d'', 51)])"
    using detect_bubbles_nth [of 1 2 ?M]
    by (simp add: shape_width_replicate shape_height_replicate inked_cell)
  have "length (detect_bubbles ?M) = 100"
    using arg_cong [OF detect_bubbles_keys [of ?M], of length] by simp
  then have "detect_bubbles ?M ! 22 \<in> set (detect_bubbles ?M)"
    by (intro nth_mem) simp
  then have m: "(23, [(''a'', 51), (''b'', 51), (''c'', 51), (''d'', 51)]) \<in> set (detect_bubbles ?M)"
    by (simp only: n)
  have a: "marked_answer [(''a'', 51), (''b'', 51), (''c'', 51), (''d'', 51)] = Some ''a''"
    by (simp add: marked_answer_def)
  from missing_key_entry_scored
    [of "[1 \<mapsto> ''a'']" 23 "[(''a'', 51), (''b'', 51), (''c'', 51), (''d'', 51)]" ?M, OF k m] k m a
  show ?thesis
    by (auto simp del: upt_rec_numeral)
qed

text \<open>
  The claim as stated fails for the key that holds question 1 only, on a sheet that is
  ink all over, where every question reads a. No error is returned: the score is 1, and
  question 23, which the key does not hold, is scored Incorrect. The same happens in
  \<open>evaluate_answers\<close> alone for an answer map of two questions.
\<close>

theorem missing_key_entry_counterexample:
  "\<not> isl (process_omr_sheet [1 \<mapsto> ''a''] (Some (replicate 80 (replicate 255 255))))
   \<and> total_score (projr (process_omr_sheet [1 \<mapsto> ''a''] (Some (replicate 80 (replicate 255 255))))) = 1
   \<and> map_of (detailed_results
        (projr (process_omr_sheet [1 \<mapsto> ''a''] (Some (replicate 80 (replicate 255 255)))))) 23
       = Some \<lparr>status = ''Incorrect'', marked = ''a'', correct = None, is_correct = False\<rparr>
   \<and> evaluate_answers [1 \<mapsto> ''a''] [(1::nat, Some ''a''), (2, Some ''a'')]
       = (1, [(1, \<lparr>status = ''Correct'', marked = ''a'', correct = Some ''a'', is_correct = True\<rparr>),
              (2, \<lparr>status = ''Incorrect'', marked = ''a'', correct = None, is_correct = False\<rparr>)])"
proof -
  let ?answers = "map (\<lambda>q. (q, Some ''a'')) [1..<101]"
  have d: "distinct (map fst ?answers)"
    by (simp add: comp_def del: upt_rec_numeral)
  have "(23, Some ''a'') \<in> set ?answers"
    by (simp del: upt_rec_numeral)
  with d have "map_of (map (verdict_of [1 \<mapsto> ''a'']) ?answers) 23
      = Some (snd (verdict_of [1 \<mapsto> ''a''] (23::nat, Some ''a'')))"
    by (rule map_of_verdicts)
  then have v: "map_of (map (verdict_of [1 \<mapsto> ''a'']) ?answers) 23
      = Some \<lparr>status = ''Incorrect'', marked = ''a'', correct = None, is_correct = False\<rparr>"
    by (simp add: verdict_of_def del: upt_rec_numeral)
  have e: "evaluate_answers [1 \<mapsto> ''a''] [(1::nat, Some ''a''), (2, Some ''a'')]
       = (1, [(1, \<lparr>status = ''Correct'', marked = ''a'', correct = Some ''a'', is_correct = True\<rparr>),
              (2, \<lparr>status = ''Incorrect'', marked = ''a'', correct = None, is_correct = False\<rparr>)])"
    by (simp add: evaluate_answers_def)
  show ?thesis
    unfolding process_closed inked_answers only_first_matches
    using v e by (simp del: upt_rec_numeral)
qed

end
